theory Spec2Isabelle
  imports Main "HOL-Library.Word" "HOL-Library.Signed_Division" "HOL-Library.Stream"
begin

unbundle bit_operations_syntax

section \<open>Errors\<close>

text \<open>
  Every \<^verbatim>\<open>throw\<close> of the source and every exception raised by the JavaScript
  runtime is a value of this type. \<open>Error\<close> carries the message of
  \<^verbatim>\<open>new Error(...)\<close>.
\<close>

datatype error = RangeError | TypeError | SyntaxError | Error string

section \<open>Field and scalar arithmetic (Crypto)\<close>

text \<open>
  BigInt values are unbounded integers. On BigInt, \<^verbatim>\<open>%\<close> and \<^verbatim>\<open>/\<close> truncate towards
  zero (\<open>smod\<close> and \<open>sdiv\<close>), and raise a RangeError when the divisor is \<open>0n\<close>.
\<close>

definition P :: int where
  "P = 0xFFFFFFFFFFFFFFFFFFFFFFFFFFFFFFFFFFFFFFFFFFFFFFFFFFFFFFFEFFFFFC2F"

definition N :: int where
  "N = 0xFFFFFFFFFFFFFFFFFFFFFFFFFFFFFFFEBAAEDCE6AF48A03BBFD25E8CD0364141"

definition Gx :: int where
  "Gx = 0x79BE667EF9DCBBAC55A06295CE870B07029BFCDB2DCE28D959F2815B16F81798"

definition Gy :: int where
  "Gy = 0x483ADA7726A3C4655DA4FBFC0E1108A8FD17B448A68554199C47D08FFB10D4B8"

text \<open>
  \<^verbatim>\<open>mod(a, b)\<close> for a divisor \<open>b \<noteq> 0\<close>: the remainder of \<^verbatim>\<open>a % b\<close>, and
  \<^verbatim>\<open>b + result\<close> when it is negative.
\<close>

definition mod_nz :: "int \<Rightarrow> int \<Rightarrow> int" where
  "mod_nz a b = (let result = a smod b in if result \<ge> 0 then result else b + result)"

text \<open>\<^verbatim>\<open>mod(a, b = this.P)\<close>: the remainder raises when \<open>b = 0n\<close>.\<close>

definition mod_js :: "int \<Rightarrow> int \<Rightarrow> error + int" where
  "mod_js a b = (if b = 0 then Inl RangeError else Inr (mod_nz a b))"

lemma smod_less_divisor: "1 < (b::int) \<Longrightarrow> a - b * (a sdiv b) < b"
proof -
  assume b: "1 < b"
  have "a - b * (a sdiv b) = a smod b"
    by (rule minus_mult_sdiv_eq_smod)
  moreover have "a smod b \<in> {- \<bar>b\<bar> + 1..\<bar>b\<bar> - 1}"
    using b by (intro smod_int_range) simp
  ultimately show ?thesis using b by auto
qed

text \<open>
  The loop of \<^verbatim>\<open>modInverse\<close>, on the state \<open>(lm, hm, low, high)\<close>. The division
  \<^verbatim>\<open>high / low\<close> is only reached with \<open>low > 1\<close>.
\<close>

function modInverse_loop :: "int \<Rightarrow> int \<Rightarrow> int \<Rightarrow> int \<Rightarrow> int" where
  "modInverse_loop lm hm low high =
     (if low > 1 then
        (let r = high sdiv low;
             nm = hm - lm * r;
             nw = high - low * r
         in modInverse_loop nm lm nw low)
      else lm)"
  by pat_completeness auto

termination
  by (relation "measure (\<lambda>(lm, hm, low, high). nat low)")
     (auto simp: smod_less_divisor)

declare modInverse_loop.simps [simp del]

text \<open>\<^verbatim>\<open>modInverse(a, m)\<close> for a modulus \<open>m \<noteq> 0\<close>.\<close>

definition modInverse_nz :: "int \<Rightarrow> int \<Rightarrow> int" where
  "modInverse_nz a m =
     (let a1 = mod_nz a m in
      if a1 = 0 then 0
      else mod_nz (modInverse_loop 1 0 (mod_nz a1 m) m) m)"

text \<open>
  \<^verbatim>\<open>modInverse(a, m = this.P)\<close>: its first statement is \<^verbatim>\<open>this.mod(a, m)\<close>, which
  raises when \<open>m = 0n\<close>.
\<close>

definition modInverse :: "int \<Rightarrow> int \<Rightarrow> error + int" where
  "modInverse a m = (if m = 0 then Inl RangeError else Inr (modInverse_nz a m))"

section \<open>Elliptic-curve point operations (Crypto)\<close>

text \<open>
  A point is \<^verbatim>\<open>null\<close> (the point at infinity, \<open>None\<close>) or a two-element array
  \<^verbatim>\<open>[x, y]\<close> of BigInt coordinates.
\<close>

type_synonym point = "(int \<times> int) option"

text \<open>
  \<^verbatim>\<open>pointAdd(p1, p2)\<close>. Every \<^verbatim>\<open>this.mod(...)\<close> and \<^verbatim>\<open>this.modInverse(...)\<close> of
  its body takes the default modulus \<open>P\<close>, which is not zero.
\<close>

definition pointAdd :: "point \<Rightarrow> point \<Rightarrow> point" where
  "pointAdd p1 p2 =
     (case p1 of None \<Rightarrow> p2
      | Some (x1, y1) \<Rightarrow>
     (case p2 of None \<Rightarrow> p1
      | Some (x2, y2) \<Rightarrow>
        if x1 = x2 \<and> y1 = y2 then
          (let s = mod_nz (mod_nz (3 * x1 * x1) P * modInverse_nz (2 * y1) P) P;
               x3 = mod_nz (s * s - 2 * x1) P;
               y3 = mod_nz (s * (x1 - x3) - y1) P
           in Some (x3, y3))
        else if x1 = x2 then None
        else
          (let s = mod_nz (mod_nz (y2 - y1) P * modInverse_nz (mod_nz (x2 - x1) P) P) P;
               x3 = mod_nz (s * s - x1 - x2) P;
               y3 = mod_nz (s * (x1 - x3) - y1) P
           in Some (x3, y3))))"

text \<open>
  The loop of \<^verbatim>\<open>pointMultiply\<close>, on the state \<open>(k, result, addend)\<close>; \<^verbatim>\<open>k & 1n\<close> is
  truthy when it is not \<open>0n\<close>, and \<^verbatim>\<open>k >>= 1n\<close> halves \<open>k\<close>.
\<close>

function pointMultiply_loop :: "int \<Rightarrow> point \<Rightarrow> point \<Rightarrow> point" where
  "pointMultiply_loop k result addend =
     (if k > 0 then
        pointMultiply_loop (drop_bit 1 k)
          (if k AND 1 \<noteq> 0 then pointAdd result addend else result)
          (pointAdd addend addend)
      else result)"
  by pat_completeness auto
termination
  by (relation "measure (\<lambda>(k, result, addend). nat k)")
     (auto simp: drop_bit_eq_div)

declare pointMultiply_loop.simps [simp del]

definition pointMultiply :: "int \<Rightarrow> point \<Rightarrow> point" where
  "pointMultiply k p = pointMultiply_loop k None p"

text \<open>The default second argument of \<^verbatim>\<open>pointMultiply\<close>: \<^verbatim>\<open>[this.Gx, this.Gy]\<close>.\<close>

definition G :: point where
  "G = Some (Gx, Gy)"

section \<open>JavaScript numbers and strings\<close>

text \<open>
  The Number values of the codec are integers (bytes, 5-bit symbols, character codes,
  bit counts), modelled as \<open>int\<close>. The bitwise operators convert both operands to
  32-bit two's complement (\<open>word_of_int\<close>), take the shift count modulo 32, and give
  back the signed value (\<open>sint\<close>); \<^verbatim>\<open>>>\<close> is the arithmetic shift. \<^verbatim>\<open>+\<close> and \<^verbatim>\<open>-\<close>
  do not wrap.
\<close>

definition js_shl :: "int \<Rightarrow> int \<Rightarrow> int" where
  "js_shl a n = sint (push_bit (nat (n mod 32)) (word_of_int a :: 32 word))"

definition js_sar :: "int \<Rightarrow> int \<Rightarrow> int" where
  "js_sar a n = sint (signed_drop_bit (nat (n mod 32)) (word_of_int a :: 32 word))"

definition js_and :: "int \<Rightarrow> int \<Rightarrow> int" where
  "js_and a b = sint ((word_of_int a :: 32 word) AND word_of_int b)"

definition js_or :: "int \<Rightarrow> int \<Rightarrow> int" where
  "js_or a b = sint ((word_of_int a :: 32 word) OR word_of_int b)"

definition js_xor :: "int \<Rightarrow> int \<Rightarrow> int" where
  "js_xor a b = sint ((word_of_int a :: 32 word) XOR word_of_int b)"

text \<open>
  Strings are lists of code units, here the code units \<open>0..255\<close> of \<open>char\<close>.
  \<^verbatim>\<open>s.indexOf(c)\<close> and \<^verbatim>\<open>s.lastIndexOf(c)\<close> give \<open>-1\<close> when \<open>c\<close> does not occur.
\<close>

primrec indexOf :: "string \<Rightarrow> char \<Rightarrow> int" where
  "indexOf [] c = - 1"
| "indexOf (x # xs) c =
     (if x = c then 0 else (let r = indexOf xs c in if r = - 1 then - 1 else r + 1))"

primrec lastIndexOf :: "string \<Rightarrow> char \<Rightarrow> int" where
  "lastIndexOf [] c = - 1"
| "lastIndexOf (x # xs) c =
     (let r = lastIndexOf xs c in
      if r \<noteq> - 1 then r + 1 else if x = c then 0 else - 1)"

definition padStart :: "string \<Rightarrow> nat \<Rightarrow> char \<Rightarrow> string" where
  "padStart s n c = replicate (n - length s) c @ s"

definition hexdigits :: string where
  "hexdigits = ''0123456789abcdef''"

text \<open>\<^verbatim>\<open>toString(16)\<close> of a non-negative integer: no leading zeros, \<open>''0''\<close> for zero.\<close>

function hex_of_nat :: "nat \<Rightarrow> string" where
  "hex_of_nat n =
     (if n < 16 then [hexdigits ! n] else hex_of_nat (n div 16) @ [hexdigits ! (n mod 16)])"
  by pat_completeness auto
termination
  by (relation "measure (\<lambda>n. n)") auto

declare hex_of_nat.simps [simp del]

definition toString16 :: "int \<Rightarrow> string" where
  "toString16 n = (if n < 0 then CHR ''-'' # hex_of_nat (nat (- n)) else hex_of_nat (nat n))"

text \<open>
  \<^verbatim>\<open>parseInt(s, 16)\<close>: skip leading white space, read a sign, skip a prefix
  \<^verbatim>\<open>0x\<close> or \<^verbatim>\<open>0X\<close>, read the longest run of hexadecimal digits; \<open>None\<close> is NaN
  (no digit read).
\<close>

definition is_ws :: "char \<Rightarrow> bool" where
  "is_ws c = ((of_char c :: nat) \<in> {9, 10, 11, 12, 13, 32, 160})"

definition is_hex :: "char \<Rightarrow> bool" where
  "is_hex c = (let n = (of_char c :: nat) in
     (48 \<le> n \<and> n \<le> 57) \<or> (97 \<le> n \<and> n \<le> 102) \<or> (65 \<le> n \<and> n \<le> 70))"

definition hex_val :: "char \<Rightarrow> nat" where
  "hex_val c = (let n = (of_char c :: nat) in
     if n \<le> 57 then n - 48 else if 97 \<le> n then n - 87 else n - 55)"

definition hex_value :: "string \<Rightarrow> nat" where
  "hex_value z = foldl (\<lambda>v c. 16 * v + hex_val c) 0 z"

definition parseInt16 :: "string \<Rightarrow> int option" where
  "parseInt16 s =
     (let s1 = dropWhile is_ws s;
          sign = (case s1 of c # t \<Rightarrow> if c = CHR ''-'' then - 1 else 1 | [] \<Rightarrow> (1::int));
          s2 = (case s1 of c # t \<Rightarrow> if c = CHR ''-'' \<or> c = CHR ''+'' then t else s1 | [] \<Rightarrow> s1);
          s3 = (case s2 of c # x # t \<Rightarrow>
                  if c = CHR ''0'' \<and> (x = CHR ''x'' \<or> x = CHR ''X'') then t else s2
                | _ \<Rightarrow> s2);
          z = takeWhile is_hex s3
      in if z = [] then None else Some (sign * int (hex_value z)))"

text \<open>
  \<^verbatim>\<open>BigInt('0x' + s)\<close>: trailing white space is trimmed; what is left after
  \<^verbatim>\<open>0x\<close> must be one or more hexadecimal digits, else a SyntaxError is raised.
\<close>

definition BigInt_0x :: "string \<Rightarrow> error + int" where
  "BigInt_0x s =
     (let z = rev (dropWhile is_ws (rev s))
      in if z \<noteq> [] \<and> list_all is_hex z then Inr (int (hex_value z)) else Inl SyntaxError)"

section \<open>Byte and hex marshalling (Crypto)\<close>

text \<open>A \<^verbatim>\<open>Uint8Array\<close> is a list of bytes; storing a Number keeps it modulo 256, NaN as 0.\<close>

type_synonym byte = "8 word"

definition to_uint8 :: "int option \<Rightarrow> byte" where
  "to_uint8 v = (case v of None \<Rightarrow> 0 | Some n \<Rightarrow> word_of_int n)"

definition bytesToHex :: "byte list \<Rightarrow> string" where
  "bytesToHex bytes = concat (map (\<lambda>b. padStart (toString16 (uint b)) 2 CHR ''0'') bytes)"

text \<open>The loop of \<^verbatim>\<open>hexToBytes\<close>: \<^verbatim>\<open>parseInt(hex.substr(i, 2), 16)\<close> for \<open>i = 0, 2, 4, \<dots>\<close>\<close>

fun hexToBytes_loop :: "string \<Rightarrow> int option list" where
  "hexToBytes_loop [] = []"
| "hexToBytes_loop [c] = [parseInt16 [c]]"
| "hexToBytes_loop (c1 # c2 # rest) = parseInt16 [c1, c2] # hexToBytes_loop rest"

definition hexToBytes :: "string \<Rightarrow> byte list" where
  "hexToBytes hex =
     (let hex1 = (if length hex mod 2 \<noteq> 0 then CHR ''0'' # hex else hex)
      in map to_uint8 (hexToBytes_loop hex1))"

definition bigIntToBytes :: "int \<Rightarrow> nat \<Rightarrow> byte list" where
  "bigIntToBytes num len = hexToBytes (padStart (toString16 num) (len * 2) CHR ''0'')"

definition bytesToBigInt :: "byte list \<Rightarrow> error + int" where
  "bytesToBigInt bytes = BigInt_0x (bytesToHex bytes)"

section \<open>Key generation (Crypto)\<close>

text \<open>
  The secure random source is a stream of bytes; each \<^verbatim>\<open>crypto.getRandomValues(bytes)\<close>
  fills the 32-byte array with the next 32 bytes of the stream. The loop of
  \<^verbatim>\<open>generatePrivateKey\<close> redraws while the key is \<open>0\<close> or \<open>\<ge> N\<close>; it does not end on
  a stream without a draw in range, and \<open>None\<close> stands for not returning.
\<close>

partial_function (option) generatePrivateKey_loop ::
  "int \<Rightarrow> byte stream \<Rightarrow> (error + int) option" where
  "generatePrivateKey_loop key rnd =
     (if key \<ge> N \<or> key = 0 then
        (case bytesToBigInt (stake 32 rnd) of
           Inl e \<Rightarrow> Some (Inl e)
         | Inr key1 \<Rightarrow> generatePrivateKey_loop key1 (sdrop 32 rnd))
      else Some (Inr key))"

declare generatePrivateKey_loop.simps [code]

definition generatePrivateKey :: "byte stream \<Rightarrow> (error + string) option" where
  "generatePrivateKey rnd =
     (case bytesToBigInt (stake 32 rnd) of
        Inl e \<Rightarrow> Some (Inl e)
      | Inr key \<Rightarrow>
          (case generatePrivateKey_loop key (sdrop 32 rnd) of
             None \<Rightarrow> None
           | Some (Inl e) \<Rightarrow> Some (Inl e)
           | Some (Inr key1) \<Rightarrow> Some (Inr (bytesToHex (bigIntToBytes key1 32)))))"

section \<open>Bech32 codec\<close>

definition charset :: string where
  "charset = ''qpzry9x8gf2tvdw0s3jn54khce6mua7l''"

definition GEN :: "int list" where
  "GEN = [0x3b6a57b2, 0x26508e6d, 0x1ea119fa, 0x3d4233dd, 0x2a1462b3]"

text \<open>One round of the outer loop of \<^verbatim>\<open>polymod\<close>, from \<open>chk\<close> and the next value.\<close>

definition polymod_step :: "int \<Rightarrow> int \<Rightarrow> int" where
  "polymod_step chk v =
     (let top = js_sar chk 25;
          chk1 = js_xor (js_shl (js_and chk 0x1ffffff) 5) v
      in foldl (\<lambda>c i. if js_and (js_sar top (int i)) 1 \<noteq> 0 then js_xor c (GEN ! i) else c)
           chk1 [0..<5])"

definition polymod :: "int list \<Rightarrow> int" where
  "polymod vs = foldl polymod_step 1 vs"

definition hrpExpand :: "string \<Rightarrow> int list" where
  "hrpExpand hrp =
     map (\<lambda>c. js_sar (of_char c) 5) hrp @ [0] @ map (\<lambda>c. js_and (of_char c) 31) hrp"

definition createChecksum :: "string \<Rightarrow> int list \<Rightarrow> int list" where
  "createChecksum hrp data =
     (let vs = hrpExpand hrp @ data @ [0, 0, 0, 0, 0, 0];
          md = js_xor (polymod vs) 1
      in map (\<lambda>i. js_and (js_sar md (5 * (5 - int i))) 31) [0..<6])"

text \<open>
  \<^verbatim>\<open>this.charset[d]\<close>: the character at \<open>d\<close>, and \<^verbatim>\<open>undefined\<close> out of range, which
  \<^verbatim>\<open>+=\<close> appends as the text \<open>''undefined''\<close>.
\<close>

definition charset_at :: "int \<Rightarrow> string" where
  "charset_at d = (if 0 \<le> d \<and> d < 32 then [charset ! nat d] else ''undefined'')"

definition encode :: "string \<Rightarrow> int list \<Rightarrow> string" where
  "encode hrp data =
     (let combined = data @ createChecksum hrp data
      in hrp @ ''1'' @ concat (map charset_at combined))"

definition verifyChecksum :: "string \<Rightarrow> int list \<Rightarrow> bool" where
  "verifyChecksum hrp data = (polymod (hrpExpand hrp @ data) = 1)"

text \<open>The character loop of \<^verbatim>\<open>decode\<close>, which stops at the first character outside the alphabet.\<close>

fun decode_chars :: "string \<Rightarrow> error + int list" where
  "decode_chars [] = Inr []"
| "decode_chars (c # cs) =
     (let d = indexOf charset c in
      if d = - 1 then Inl (Error ''Invalid bech32 character'')
      else (case decode_chars cs of Inl e \<Rightarrow> Inl e | Inr ds \<Rightarrow> Inr (d # ds)))"

definition decode :: "string \<Rightarrow> error + (string \<times> int list)" where
  "decode bechString =
     (let pos = lastIndexOf bechString CHR ''1'' in
      if pos < 1 \<or> pos + 7 > int (length bechString) then Inl (Error ''Invalid bech32 string'')
      else
        (let hrp = take (nat pos) bechString in
         case decode_chars (drop (nat pos + 1) bechString) of
           Inl e \<Rightarrow> Inl e
         | Inr data \<Rightarrow>
             if \<not> verifyChecksum hrp data then Inl (Error ''Invalid bech32 checksum'')
             else Inr (hrp, take (length data - 6) data)))"

text \<open>
  The inner loop of \<^verbatim>\<open>convertBits\<close>: \<^verbatim>\<open>while (bits >= toBits)\<close>. It does not end when
  \<open>toBits \<le> 0\<close> and \<open>bits \<ge> toBits\<close>; \<open>None\<close> stands for not returning.
\<close>

partial_function (option) convertBits_while ::
  "int \<Rightarrow> int \<Rightarrow> int \<Rightarrow> int \<Rightarrow> int list \<Rightarrow> (int \<times> int list) option" where
  "convertBits_while acc toBits maxv bits ret =
     (if bits \<ge> toBits then
        convertBits_while acc toBits maxv (bits - toBits)
          (ret @ [js_and (js_sar acc (bits - toBits)) maxv])
      else Some (bits, ret))"

declare convertBits_while.simps [code]

text \<open>The \<^verbatim>\<open>for\<close> loop of \<^verbatim>\<open>convertBits\<close>, on the state \<open>(acc, bits, ret)\<close>.\<close>

fun convertBits_for ::
  "int list \<Rightarrow> int \<Rightarrow> int \<Rightarrow> int \<Rightarrow> int \<Rightarrow> int \<Rightarrow> int list \<Rightarrow>
     (error + (int \<times> int \<times> int list)) option" where
  "convertBits_for [] fromBits toBits maxv acc bits ret = Some (Inr (acc, bits, ret))"
| "convertBits_for (v # vs) fromBits toBits maxv acc bits ret =
     (if v < 0 \<or> js_sar v fromBits \<noteq> 0 then Some (Inl (Error ''Invalid data''))
      else
        (let acc1 = js_or (js_shl acc fromBits) v in
         case convertBits_while acc1 toBits maxv (bits + fromBits) ret of
           None \<Rightarrow> None
         | Some (bits1, ret1) \<Rightarrow> convertBits_for vs fromBits toBits maxv acc1 bits1 ret1))"

definition convertBits :: "int list \<Rightarrow> int \<Rightarrow> int \<Rightarrow> bool \<Rightarrow> (error + int list) option" where
  "convertBits data fromBits toBits pad =
     (let maxv = js_shl 1 toBits - 1 in
      case convertBits_for data fromBits toBits maxv 0 0 [] of
        None \<Rightarrow> None
      | Some (Inl e) \<Rightarrow> Some (Inl e)
      | Some (Inr (acc, bits, ret)) \<Rightarrow>
          if pad then
            (if bits > 0 then Some (Inr (ret @ [js_and (js_shl acc (toBits - bits)) maxv]))
             else Some (Inr ret))
          else if bits \<ge> fromBits \<or> js_and (js_shl acc (toBits - bits)) maxv \<noteq> 0
            then Some (Inl (Error ''Invalid padding''))
          else Some (Inr ret))"

text \<open>
  \<^verbatim>\<open>encodePubkey\<close>, \<^verbatim>\<open>encodePrivkey\<close>, \<^verbatim>\<open>decodePubkey\<close>, \<^verbatim>\<open>decodePrivkey\<close>. The bytes
  of a \<^verbatim>\<open>Uint8Array\<close> are read as Numbers (\<open>uint\<close>), and \<^verbatim>\<open>new Uint8Array(bytes)\<close>
  stores each Number modulo 256.
\<close>

definition encodeKey :: "string \<Rightarrow> string \<Rightarrow> (error + string) option" where
  "encodeKey hrp hex =
     (let bytes = hexToBytes hex in
      case convertBits (map uint bytes) 8 5 True of
        None \<Rightarrow> None
      | Some (Inl e) \<Rightarrow> Some (Inl e)
      | Some (Inr words) \<Rightarrow> Some (Inr (encode hrp words)))"

definition encodePubkey :: "string \<Rightarrow> (error + string) option" where
  "encodePubkey hex = encodeKey ''npub'' hex"

definition encodePrivkey :: "string \<Rightarrow> (error + string) option" where
  "encodePrivkey hex = encodeKey ''nsec'' hex"

definition decodeKey :: "string \<Rightarrow> (error + string) option" where
  "decodeKey s =
     (case decode s of
        Inl e \<Rightarrow> Some (Inl e)
      | Inr (hrp, data) \<Rightarrow>
          (case convertBits data 5 8 False of
             None \<Rightarrow> None
           | Some (Inl e) \<Rightarrow> Some (Inl e)
           | Some (Inr bytes) \<Rightarrow> Some (Inr (bytesToHex (map word_of_int bytes)))))"

definition decodePubkey :: "string \<Rightarrow> (error + string) option" where
  "decodePubkey npub = decodeKey npub"

definition decodePrivkey :: "string \<Rightarrow> (error + string) option" where
  "decodePrivkey nsec = decodeKey nsec"

section \<open>Positional notation\<close>

text \<open>
  The \<open>n\<close> digits of width \<open>w\<close> bits of a value, most significant first, and the
  value denoted by a list of digits read after a value \<open>v0\<close>. They state what
  \<^verbatim>\<open>convertBits\<close> computes.
\<close>

fun be_digits :: "nat \<Rightarrow> nat \<Rightarrow> int \<Rightarrow> int list" where
  "be_digits w 0 v = []"
| "be_digits w (Suc n) v = be_digits w n (v div 2 ^ w) @ [v mod 2 ^ w]"

definition be_val :: "nat \<Rightarrow> int \<Rightarrow> int list \<Rightarrow> int" where
  "be_val w v0 ds = foldl (\<lambda>v d. v * 2 ^ w + d) v0 ds"


section \<open>Random draws\<close>

text \<open>The integer denoted, most significant byte first, by the next 32 bytes of the stream.\<close>

definition draw :: "byte stream \<Rightarrow> int" where
  "draw rnd = be_val 8 0 (map uint (stake 32 rnd))"


section \<open>The checksum as a linear map\<close>

text \<open>
  On values below \<open>2 ^ 30\<close> one round of \<open>polymod\<close> is \<open>pstep\<close>: the low 25 bits
  move up by 5, the value is added (XOR), and \<open>gen\<close> adds the generators selected by
  the top 5 bits.
\<close>

definition sel :: "bool \<Rightarrow> int \<Rightarrow> int" where
  "sel p g = (if p then g else 0)"

definition gen :: "int \<Rightarrow> int" where
  "gen t = foldl (\<lambda>c i. c XOR sel (bit t i) (GEN ! i)) 0 [0..<5]"

definition pstep :: "int \<Rightarrow> int \<Rightarrow> int" where
  "pstep c v = push_bit 5 (take_bit 25 c) XOR v XOR gen (drop_bit 25 c)"


section \<open>Properties of the field arithmetic\<close>

lemma mod_nz_pos: "0 < b \<Longrightarrow> mod_nz a b = a mod b"
  unfolding mod_nz_def Let_def signed_modulo_int_def
  apply (cases "b dvd a")
   apply (auto simp: sgn_if zmod_zminus1_eq_if abs_if)
  using leD pos_mod_bound by blast

lemma modInverse_loop_inv:
  assumes "0 < m" "0 < low" "0 \<le> high"
    and "(lm * a) mod m = low mod m" "(hm * a) mod m = high mod m"
    and "gcd low high = 1"
  shows "(modInverse_loop lm hm low high * a) mod m = 1 mod m"
  using assms
proof (induction lm hm low high rule: modInverse_loop.induct)
  case (1 lm hm low high)
  show ?case
  proof (cases "low > 1")
    case True
    define r where "r = high sdiv low"
    have r: "r = high div low"
      using True "1.prems" by (simp add: r_def signed_divide_int_def sgn_if)
    have nw: "high - low * r = high mod low"
      by (simp add: r minus_mult_div_eq_mod)
    have g: "gcd (high - low * r) low = 1"
      using "1.prems"(6) by (simp add: nw gcd.commute gcd_red_int [symmetric])
    have "high - low * r \<noteq> 0"
    proof
      assume "high - low * r = 0"
      with g have "\<bar>low\<bar> = 1" by simp
      with True show False by simp
    qed
    moreover have "0 \<le> high - low * r" using True by (simp add: nw)
    ultimately have nw0: "0 < high - low * r" by simp
    have c1: "((hm - lm * r) * a) mod m = (high - low * r) mod m"
    proof -
      have "(hm * a - (lm * a) * r) mod m = (high - low * r) mod m"
        by (rule mod_diff_cong [OF "1.prems"(5) mod_mult_cong [OF "1.prems"(4) refl]])
      then show ?thesis by (simp add: algebra_simps)
    qed
    have low0: "0 \<le> low" using True by simp
    have "(modInverse_loop (hm - lm * r) lm (high - low * r) low * a) mod m = 1 mod m"
      using "1.IH" [OF True r_def refl refl "1.prems"(1) nw0 low0 c1 "1.prems"(4) g] .
    then show ?thesis
      using True by (subst modInverse_loop.simps) (simp add: Let_def r_def)
  next
    case False
    with "1.prems" have "low = 1" by simp
    then show ?thesis
      using "1.prems" by (subst modInverse_loop.simps) simp
  qed
qed

text \<open>
  C9. For every modulus \<open>m \<ge> 2\<close>: \<open>modInverse a m\<close> returns \<open>0\<close> when \<open>a \<equiv> 0 (mod m)\<close>;
  and when \<open>gcd a m = 1\<close> it returns \<open>r\<close> with \<open>0 \<le> r < m\<close> and
  \<open>mod (a * r) m = 1\<close>. No call raises.
\<close>

theorem modInverse_correct:
  assumes "2 \<le> m"
  shows "(a mod m = 0 \<longrightarrow> modInverse a m = Inr 0) \<and>
         (gcd a m = 1 \<longrightarrow>
            (\<exists>r. modInverse a m = Inr r \<and> 0 \<le> r \<and> r < m \<and> mod_js (a * r) m = Inr 1))"
proof (intro conjI impI)
  have m0: "0 < m" "m \<noteq> 0" using assms by simp_all
  show "modInverse a m = Inr 0" if "a mod m = 0"
    using that m0 by (simp add: modInverse_def modInverse_nz_def mod_nz_pos)
  show "\<exists>r. modInverse a m = Inr r \<and> 0 \<le> r \<and> r < m \<and> mod_js (a * r) m = Inr 1"
    if g: "gcd a m = 1"
  proof -
    define a1 where "a1 = a mod m"
    have a1_nz: "a1 \<noteq> 0"
    proof
      assume "a1 = 0"
      then have "m dvd a" by (simp add: a1_def mod_eq_0_iff_dvd)
      then have "gcd a m = \<bar>m\<bar>" by (simp add: gcd_proj2_if_dvd)
      with g assms show False by simp
    qed
    have a1_pos: "0 < a1"
      using a1_nz m0 by (simp add: a1_def less_le)
    define l where "l = modInverse_loop 1 0 a1 m"
    have g1: "gcd a1 m = 1"
      using g by (simp add: a1_def gcd.commute [of _ m] gcd_red_int [symmetric])
    have "(l * a1) mod m = 1 mod m"
      unfolding l_def
      using m0 a1_pos g1 by (intro modInverse_loop_inv) simp_all
    then have la: "(l * a) mod m = 1"
      using assms by (simp add: a1_def mod_simps)
    have a1_idem: "a1 mod m = a1" by (simp add: a1_def)
    have res: "modInverse a m = Inr (l mod m)"
      using m0 a1_nz
      by (simp add: modInverse_def modInverse_nz_def mod_nz_pos a1_def [symmetric]
          l_def a1_idem)
    have "(a * (l mod m)) mod m = 1"
      using la by (simp add: mod_simps mult.commute)
    then have "mod_js (a * (l mod m)) m = Inr 1"
      using m0 by (simp add: mod_js_def mod_nz_pos)
    with res m0 show ?thesis by simp
  qed
qed

theorem modInverse_correct_witness:
  "(2::int) \<le> 7 \<and> (14 mod 7 = (0::int) \<and> modInverse 14 7 = Inr 0) \<and>
   (gcd (3::int) 7 = 1 \<and> modInverse 3 7 = Inr 5 \<and> mod_js (3 * 5) 7 = Inr 1)"
proof -
  have h: "(2::int) \<le> 7" by simp
  have e: "modInverse 3 7 = Inr 5" by code_simp
  have g: "gcd (3::int) 7 = 1" by code_simp
  show ?thesis
    using modInverse_correct [OF h, of 14] modInverse_correct [OF h, of 3] e g
    by (simp add: mod_js_def mod_nz_pos)
qed

section \<open>Properties of the 32-bit operators\<close>

lemma js_and_int: "js_and a b = signed_take_bit 31 (a AND b)"
  by (simp add: js_and_def sint_sbintrunc' flip: of_int_and_eq) 
lemma js_or_int: "js_or a b = signed_take_bit 31 (a OR b)"
  by (simp add: js_or_def sint_sbintrunc' flip: of_int_or_eq)
lemma js_xor_int: "js_xor a b = signed_take_bit 31 (a XOR b)"
  by (simp add: js_xor_def sint_sbintrunc' flip: of_int_xor_eq)
lemma js_shl_int: "js_shl a n = signed_take_bit 31 (push_bit (nat (n mod 32)) a)"
  by (simp add: js_shl_def sint_sbintrunc' push_bit_of_int) 
lemma js_sar_int: "js_sar a n = drop_bit (nat (n mod 32)) (signed_take_bit 31 a)"
  by (simp add: js_sar_def sint_signed_drop_bit_eq sint_sbintrunc')
lemma stb31_id: "0 \<le> k \<Longrightarrow> k < 2 ^ 31 \<Longrightarrow> signed_take_bit 31 k = (k::int)"
  by (rule signed_take_bit_int_eq_self) simp_all

lemma stb_bit: "n < 32 \<Longrightarrow> bit (signed_take_bit 31 k) n = bit (k::int) n"
proof -
  assume "n < 32"
  then have "min 31 n = n" by simp
  then show ?thesis by (simp add: bit_signed_take_bit_iff)
qed

lemma js_and_mask: 
  assumes "t \<le> 30"
  shows "js_and x (2 ^ t - 1) = take_bit t x"
proof -
  have "(2::int) ^ t \<le> 2 ^ 30" using assms by (intro power_increasing) simp_all
  also have "\<dots> < 2 ^ 31" by simp
  finally have "(2::int) ^ t < 2 ^ 31" .
  moreover have "take_bit t x < 2 ^ t" by simp
  ultimately have "take_bit t x < 2 ^ 31" by (rule order.strict_trans[rotated])
  then show ?thesis
    by (simp add: js_and_int stb31_id flip: mask_eq_exp_minus_1 take_bit_eq_mask)
qed

lemma js_sar_and_mask:
  assumes "0 < t" "t \<le> 30" "b + t \<le> 32" "take_bit 32 acc = take_bit 32 (V::int)"
  shows "js_and (js_sar acc (int b)) (2 ^ t - 1) = (V div 2 ^ b) mod 2 ^ t"
proof -
  have b: "nat (int b mod 32) = b" using assms by simp
  have "bit acc n = bit V n" if "n < 32" for n
    using assms(4) that by (metis bit_take_bit_iff)
  then have "take_bit t (drop_bit b (signed_take_bit 31 acc)) = take_bit t (drop_bit b V)"
    using assms(1-3)
    by (auto simp: bit_eq_iff bit_take_bit_iff bit_drop_bit_eq stb_bit)
  then show ?thesis using assms(2)
    by (simp add: js_and_mask js_sar_int b take_bit_eq_mod drop_bit_eq_div)
qed

lemma js_shl_and_mask:
  assumes "t \<le> 30" "s < 32" "take_bit 32 acc = take_bit 32 (V::int)"
  shows "js_and (js_shl acc (int s)) (2 ^ t - 1) = (V * 2 ^ s) mod 2 ^ t"
proof -
  have s: "nat (int s mod 32) = s" using assms by simp
  have "bit acc n = bit V n" if "n < 32" for n
    using assms(3) that by (metis bit_take_bit_iff)
  then have "take_bit t (signed_take_bit 31 (push_bit s acc)) = take_bit t (push_bit s V)"
    using assms(1,2)
    by (auto simp: bit_eq_iff bit_take_bit_iff bit_push_bit_iff_int stb_bit)
  then show ?thesis using assms(1)
    by (simp add: js_and_mask js_shl_int s take_bit_eq_mod push_bit_eq_mult)
qed

lemma js_acc_update:
  assumes "fb < 32" "0 \<le> d" "d < 2 ^ fb" "take_bit 32 acc = take_bit 32 (V::int)"
  shows "take_bit 32 (js_or (js_shl acc (int fb)) d) = take_bit 32 (V * 2 ^ fb + d)"
proof -
  have s: "nat (int fb mod 32) = fb" using assms by simp
  have bits: "bit acc n = bit V n" if "n < 32" for n
    using assms(4) that by (metis bit_take_bit_iff)
  have d: "take_bit fb d = d" using assms by (simp add: take_bit_int_eq_self)
  have "V * 2 ^ fb + d = push_bit fb V + take_bit fb d"
    by (simp add: d push_bit_eq_mult)
  also have "\<dots> = push_bit fb V OR take_bit fb d"
    by (rule disjunctive_add_eq_or) (simp add: bit_eq_iff bit_simps)
  finally have e: "V * 2 ^ fb + d = push_bit fb V OR d" by (simp add: d)
  have "take_bit 32 (signed_take_bit 31 (signed_take_bit 31 (push_bit fb acc) OR d))
      = take_bit 32 (push_bit fb V OR d)"
    using bits
    by (auto simp: bit_eq_iff bit_take_bit_iff bit_push_bit_iff_int stb_bit bit_or_iff)
  then show ?thesis by (simp add: js_or_int js_shl_int s e)
qed

lemma js_sar_small: 
  assumes "fb < 32" "0 \<le> d" "d < 2 ^ fb"
  shows "js_sar d (int fb) = 0"
proof -
  have s: "nat (int fb mod 32) = fb" using assms by simp
  have "(2::int) ^ fb \<le> 2 ^ 31" using assms by (intro power_increasing) simp_all
  then have "d < 2 ^ 31" using assms(3) by (rule order.strict_trans2[rotated])
  then show ?thesis using assms by (simp add: js_sar_int s stb31_id drop_bit_eq_div)
qed

section \<open>What convertBits computes\<close>

lemma while_sem:
  assumes "0 < t" "t \<le> 30" "take_bit 32 acc = take_bit 32 V"
  shows "bits \<le> 32 \<Longrightarrow> ret = be_digits t n (V div 2 ^ bits) \<Longrightarrow>
    \<exists>b' n'. convertBits_while acc (int t) (2 ^ t - 1) (int bits) ret
        = Some (int b', be_digits t n' (V div 2 ^ b')) \<and> b' < t \<and> t * n' + b' = t * n + bits"
proof (induction bits arbitrary: ret n rule: less_induct)
  case (less bits)
  show ?case
  proof (cases "bits < t")
    case True
    then have "convertBits_while acc (int t) (2 ^ t - 1) (int bits) ret = Some (int bits, ret)"
      by (subst convertBits_while.simps) simp
    with less.prems True show ?thesis by blast
  next
    case False
    then have ge: "t \<le> bits" by simp
    define b where "b = bits - t"
    have bt: "b + t = bits" "b < bits" using ge assms(1) by (simp_all add: b_def)
    have ib: "int bits - int t = int b" using ge by (simp add: b_def)
    have "js_and (js_sar acc (int b)) (2 ^ t - 1) = (V div 2 ^ b) mod 2 ^ t"
      using assms less.prems(1) bt by (intro js_sar_and_mask) simp_all
    moreover have "(V div 2 ^ b) div 2 ^ t = V div 2 ^ bits"
      using bt(1) by (simp add: div_mult2_eq [symmetric] flip: power_add zdiv_zmult2_eq)
    ultimately have r: "ret @ [js_and (js_sar acc (int b)) (2 ^ t - 1)]
         = be_digits t (Suc n) (V div 2 ^ b)"
      using less.prems(2) by simp
    have b32: "b \<le> 32" using bt less.prems(1) by simp
    from less.IH [OF bt(2) b32 r] obtain b' n' where
      *: "convertBits_while acc (int t) (2 ^ t - 1) (int b)
            (ret @ [js_and (js_sar acc (int b)) (2 ^ t - 1)])
          = Some (int b', be_digits t n' (V div 2 ^ b'))" "b' < t"
         "t * n' + b' = t * Suc n + b"
      by blast
    have "convertBits_while acc (int t) (2 ^ t - 1) (int bits) ret
        = Some (int b', be_digits t n' (V div 2 ^ b'))"
      using ge *(1) by (subst convertBits_while.simps) (simp add: ib)
    moreover have "t * n' + b' = t * n + bits" using *(3) bt(1) by simp
    ultimately show ?thesis using *(2) by blast
  qed
qed

lemma for_sem:
  assumes "0 < t" "t \<le> 30" "fb < 32" "t + fb \<le> 33"
  shows "\<forall>d\<in>set data. 0 \<le> d \<and> d < 2 ^ fb \<Longrightarrow> take_bit 32 acc = take_bit 32 V \<Longrightarrow>
    bits < t \<Longrightarrow> ret = be_digits t n (V div 2 ^ bits) \<Longrightarrow>
    \<exists>acc' b' n'. convertBits_for data (int fb) (int t) (2 ^ t - 1) acc (int bits) ret
        = Some (Inr (acc', int b', be_digits t n' (be_val fb V data div 2 ^ b'))) \<and>
      take_bit 32 acc' = take_bit 32 (be_val fb V data) \<and> b' < t \<and>
      t * n' + b' = t * n + bits + fb * length data"
proof (induction data arbitrary: acc V bits ret n)
  case Nil
  then show ?case by (simp add: be_val_def)
next
  case (Cons d ds)
  have d: "0 \<le> d" "d < 2 ^ fb" using Cons.prems(1) by simp_all
  define acc1 where "acc1 = js_or (js_shl acc (int fb)) d"
  define V1 where "V1 = V * 2 ^ fb + d"
  have a1: "take_bit 32 acc1 = take_bit 32 V1"
    unfolding acc1_def V1_def using assms(3) d Cons.prems(2) by (rule js_acc_update)
  have chk: "\<not> (d < 0 \<or> js_sar d (int fb) \<noteq> 0)"
    using d assms(3) by (simp add: js_sar_small)
  have "V1 div 2 ^ fb = V"
    using d by (simp add: V1_def)
  then have "V1 div 2 ^ (bits + fb) = V div 2 ^ bits"
    by (simp add: power_add mult.commute [of "2 ^ bits"] zdiv_zmult2_eq)
  then have r: "ret = be_digits t n (V1 div 2 ^ (bits + fb))"
    using Cons.prems(4) by simp
  have le: "bits + fb \<le> 32" using Cons.prems(3) assms(4) by simp
  from while_sem [OF assms(1,2) a1 le r] obtain b1 n1 where
    w: "convertBits_while acc1 (int t) (2 ^ t - 1) (int (bits + fb)) ret
          = Some (int b1, be_digits t n1 (V1 div 2 ^ b1))" "b1 < t"
       "t * n1 + b1 = t * n + (bits + fb)"
    by blast
  have ds: "\<forall>d\<in>set ds. 0 \<le> d \<and> d < 2 ^ fb" using Cons.prems(1) by simp
  from Cons.IH [OF ds a1 w(2) refl] obtain acc' b' n' where
    i: "convertBits_for ds (int fb) (int t) (2 ^ t - 1) acc1 (int b1)
          (be_digits t n1 (V1 div 2 ^ b1))
        = Some (Inr (acc', int b', be_digits t n' (be_val fb V1 ds div 2 ^ b')))"
      "take_bit 32 acc' = take_bit 32 (be_val fb V1 ds)" "b' < t"
      "t * n' + b' = t * n1 + b1 + fb * length ds"
    by blast
  have v: "be_val fb V (d # ds) = be_val fb V1 ds" by (simp add: be_val_def V1_def)
  have "convertBits_for (d # ds) (int fb) (int t) (2 ^ t - 1) acc (int bits) ret
      = Some (Inr (acc', int b', be_digits t n' (be_val fb V (d # ds) div 2 ^ b')))"
    using chk w(1) i(1) by (simp add: acc1_def [symmetric] v)
  moreover have "t * n' + b' = t * n + bits + fb * length (d # ds)"
    using i(4) w(3) by simp
  ultimately show ?case using i(2,3) v by metis
qed

lemma js_shl_1: "0 \<le> t \<Longrightarrow> t \<le> 30 \<Longrightarrow> js_shl 1 t = 2 ^ nat t"
proof -
  assume a: "0 \<le> t" "t \<le> 30"
  then have n: "nat (t mod 32) = nat t" by simp
  have "(2::int) ^ nat t \<le> 2 ^ 30" using a by (intro power_increasing) simp_all
  then have lt: "(2::int) ^ nat t < 2 ^ 31" by simp
  show ?thesis using lt by (simp add: js_shl_int n push_bit_eq_mult stb31_id)
qed

lemma be_digits_range: "d \<in> set (be_digits w n v) \<Longrightarrow> 0 \<le> d \<and> d < 2 ^ w"
  by (induction n arbitrary: v) auto

lemma length_be_digits [simp]: "length (be_digits w n v) = n"
  by (induction n arbitrary: v) auto

lemma be_val_snoc: "be_val w v0 (ds @ [d]) = be_val w v0 ds * 2 ^ w + d"
  by (simp add: be_val_def)

lemma be_val_digits: "be_val w 0 (be_digits w n v) = v mod 2 ^ (w * n)"
proof (induction n arbitrary: v)
  case 0
  then show ?case by (simp add: be_val_def)
next
  case (Suc n)
  have "be_val w 0 (be_digits w (Suc n) v) = (v div 2 ^ w) mod 2 ^ (w * n) * 2 ^ w + v mod 2 ^ w"
    by (simp add: be_val_snoc Suc.IH)
  also have "\<dots> = v mod (2 ^ w * 2 ^ (w * n))"
    by (simp add: zmod_zmult2_eq [of _ v "2 ^ w"])
  also have "\<dots> = v mod 2 ^ (w * Suc n)"
    by (simp add: power_add)
  finally show ?case .
qed

lemma be_digits_val:
  "\<forall>d\<in>set ds. 0 \<le> d \<and> d < 2 ^ w \<Longrightarrow> be_digits w (length ds) (be_val w 0 ds) = ds"
proof (induction ds rule: rev_induct)
  case Nil
  then show ?case by simp
next
  case (snoc d ds)
  have d: "0 \<le> d" "d < 2 ^ w" using snoc.prems by simp_all
  have "(be_val w 0 ds * 2 ^ w + d) div 2 ^ w = be_val w 0 ds"
    using d by simp
  moreover have "(be_val w 0 ds * 2 ^ w + d) mod 2 ^ w = d"
    using d by simp
  ultimately show ?case using snoc by (simp add: be_val_snoc)
qed

lemma be_val_bound:
  "\<forall>d\<in>set ds. 0 \<le> d \<and> d < 2 ^ w \<Longrightarrow> 0 \<le> be_val w 0 ds \<and> be_val w 0 ds < 2 ^ (w * length ds)"
proof (induction ds rule: rev_induct)
  case Nil
  then show ?case by (simp add: be_val_def)
next
  case (snoc d ds)
  have d: "0 \<le> d" "d < 2 ^ w" using snoc.prems by simp_all
  have v: "0 \<le> be_val w 0 ds" "be_val w 0 ds < 2 ^ (w * length ds)"
    using snoc by simp_all
  have "be_val w 0 ds + 1 \<le> 2 ^ (w * length ds)" using v by simp
  then have "(be_val w 0 ds + 1) * 2 ^ w \<le> 2 ^ (w * length ds) * 2 ^ w"
    by (rule mult_right_mono) simp
  then have "be_val w 0 ds * 2 ^ w + d < 2 ^ (w * length ds) * 2 ^ w"
    using d by (simp add: algebra_simps)
  then show ?case using v d by (simp add: be_val_snoc power_add mult.commute)
qed

lemma convertBits_pad_sem:
  assumes "0 < t" "t \<le> 30" "fb < 32" "t + fb \<le> 33"
    and "\<forall>d\<in>set data. 0 \<le> d \<and> d < 2 ^ fb"
  shows "\<exists>n p. convertBits data (int fb) (int t) True
       = Some (Inr (be_digits t n (be_val fb 0 data * 2 ^ p))) \<and> p < t \<and>
       t * n = fb * length data + p"
proof -
  have mv: "js_shl 1 (int t) - 1 = 2 ^ t - 1"
    using assms(2) by (simp add: js_shl_1)
  define V where "V = be_val fb 0 data"
  from for_sem [OF assms(1-5), of 0 0 0 "[]" 0] obtain acc b n where
    f: "convertBits_for data (int fb) (int t) (2 ^ t - 1) 0 0 []
         = Some (Inr (acc, int b, be_digits t n (V div 2 ^ b)))"
       "take_bit 32 acc = take_bit 32 V" "b < t" "t * n + b = fb * length data"
    using assms(1) by (auto simp: V_def)
  show ?thesis
  proof (cases "b = 0")
    case True
    then have "convertBits data (int fb) (int t) True = Some (Inr (be_digits t n (V * 2 ^ 0)))"
      using f(1) by (simp add: convertBits_def mv)
    then show ?thesis using f(4) True assms(1) unfolding V_def by (metis add.right_neutral)
  next
    case False
    define p where "p = t - b"
    have p: "p < t" "b + p = t" "p < 32" using f(3) False assms(2) by (simp_all add: p_def)
    have ip: "int t - int b = int p" using f(3) by (simp add: p_def)
    have "js_and (js_shl acc (int p)) (2 ^ t - 1) = (V * 2 ^ p) mod 2 ^ t"
      using assms(2) p(3) f(2) by (rule js_shl_and_mask)
    moreover have "(V * 2 ^ p) div 2 ^ t = V div 2 ^ b"
    proof -
      have "(V * 2 ^ p) div (2 ^ p * 2 ^ b) = (V * 2 ^ p) div 2 ^ p div 2 ^ b"
        by (rule zdiv_zmult2_eq) simp
      then show ?thesis using p(2) by (simp add: power_add [symmetric] add.commute)
    qed
    ultimately have "be_digits t n (V div 2 ^ b) @ [js_and (js_shl acc (int p)) (2 ^ t - 1)]
        = be_digits t (Suc n) (V * 2 ^ p)"
      by simp
    then have "convertBits data (int fb) (int t) True
        = Some (Inr (be_digits t (Suc n) (V * 2 ^ p)))"
      using f(1) False by (simp add: convertBits_def mv ip)
    moreover have "t * Suc n = fb * length data + p"
      using f(4) p(2) by simp
    ultimately show ?thesis using p(1) unfolding V_def by blast
  qed
qed

lemma div_unique8: 
  assumes "b' < 8" "p < 8" "8 * n' + b' = 8 * l + (p::nat)"
  shows "b' = p \<and> n' = l"
proof -
  have "\<not> n' < l" using assms by linarith
  moreover have "\<not> l < n'" using assms by linarith
  ultimately have "n' = l" by simp
  with assms show ?thesis by simp
qed

lemma convertBits_nopad_sem:
  assumes "0 < t" "t \<le> 30" "fb < 32" "t + fb \<le> 33"
    and "\<forall>d\<in>set data. 0 \<le> d \<and> d < 2 ^ fb"
  shows "\<exists>n b. b < t \<and> t * n + b = fb * length data \<and>
     convertBits data (int fb) (int t) False =
       Some (if fb \<le> b \<or> (be_val fb 0 data * 2 ^ (t - b)) mod 2 ^ t \<noteq> 0
             then Inl (Error ''Invalid padding'')
             else Inr (be_digits t n (be_val fb 0 data div 2 ^ b)))"
proof -
  have mv: "js_shl 1 (int t) - 1 = 2 ^ t - 1"
    using assms(2) by (simp add: js_shl_1)
  define V where "V = be_val fb 0 data"
  from for_sem [OF assms(1-5), of 0 0 0 "[]" 0] obtain acc b n where
    f: "convertBits_for data (int fb) (int t) (2 ^ t - 1) 0 0 []
         = Some (Inr (acc, int b, be_digits t n (V div 2 ^ b)))"
       "take_bit 32 acc = take_bit 32 V" "b < t" "t * n + b = fb * length data"
    using assms(1) by (auto simp: V_def)
  have ip: "int t - int b = int (t - b)" using f(3) by simp
  have "t - b < 32" using assms(2) by simp
  with assms(2) have "js_and (js_shl acc (int (t - b))) (2 ^ t - 1) = (V * 2 ^ (t - b)) mod 2 ^ t"
    using f(2) by (intro js_shl_and_mask) simp_all
  then have "convertBits data (int fb) (int t) False =
       Some (if fb \<le> b \<or> (V * 2 ^ (t - b)) mod 2 ^ t \<noteq> 0
             then Inl (Error ''Invalid padding'')
             else Inr (be_digits t n (V div 2 ^ b)))"
    using f(1) by (simp add: convertBits_def mv ip)
  then show ?thesis using f(3,4) unfolding V_def by blast
qed

lemma convertBits_8_5_8:
  assumes "\<forall>x\<in>set b. 0 \<le> x \<and> x \<le> 255"
  shows "\<exists>w. convertBits b 8 5 True = Some (Inr w) \<and> length w = (8 * length b + 4) div 5 \<and>
     (\<forall>d\<in>set w. 0 \<le> d \<and> d < 32) \<and> convertBits w 5 8 False = Some (Inr b)"
proof -
  have r8: "\<forall>x\<in>set b. 0 \<le> x \<and> x < 2 ^ 8" using assms by auto
  define V where "V = be_val 8 0 b"
  from convertBits_pad_sem [of 5 8 b] r8 obtain n p where
    e: "convertBits b 8 5 True = Some (Inr (be_digits 5 n (V * 2 ^ p)))" "p < 5"
       "5 * n = 8 * length b + p"
    unfolding V_def by auto
  define w where "w = be_digits 5 n (V * 2 ^ p)"
  have r5: "\<forall>d\<in>set w. 0 \<le> d \<and> d < 2 ^ 5"
    unfolding w_def using be_digits_range by blast
  have Vb: "0 \<le> V" "V < 2 ^ (8 * length b)"
    using be_val_bound [OF r8] by (simp_all add: V_def)
  have "V * 2 ^ p < 2 ^ (8 * length b) * 2 ^ p"
    using Vb(2) by simp
  then have "V * 2 ^ p < 2 ^ (5 * n)" by (simp add: e(3) power_add)
  then have V2: "be_val 5 0 w = V * 2 ^ p"
    using Vb(1) by (simp add: w_def be_val_digits)
  from convertBits_nopad_sem [of 8 5 w] r5 obtain n' b' where
    d: "b' < 8" "8 * n' + b' = 5 * length w"
       "convertBits w 5 8 False =
         Some (if 5 \<le> b' \<or> (V * 2 ^ p * 2 ^ (8 - b')) mod 2 ^ 8 \<noteq> 0
             then Inl (Error ''Invalid padding'')
             else Inr (be_digits 8 n' (V * 2 ^ p div 2 ^ b')))"
    unfolding V2 by auto
  have lw: "length w = n" by (simp add: w_def)
  have "8 * n' + b' = 8 * length b + p" "p < 8"
    using d(2) e(2,3) lw by simp_all
  with d(1) have eq: "b' = p" "n' = length b"
    using div_unique8 [of b' p n' "length b"] by simp_all
  have "(2::int) ^ p * 2 ^ (8 - p) = 2 ^ 8"
    using e(2) by (simp flip: power_add)
  then have e8: "V * 2 ^ p * 2 ^ (8 - p) = V * 2 ^ 8"
    by (simp only: mult.assoc)
  have z: "(V * 2 ^ p * 2 ^ (8 - p)) mod 2 ^ 8 = 0"
    by (subst e8) simp
  have "be_digits 8 (length b) V = b"
    unfolding V_def using r8 by (rule be_digits_val)
  then have "convertBits w 5 8 False = Some (Inr b)"
    using d(3) e(2) z unfolding eq by simp
  moreover have "length w = (8 * length b + 4) div 5"
    using lw e(2,3) by linarith
  ultimately show ?thesis using e(1) r5 unfolding w_def by auto
qed


text \<open>
  C8. For every sequence \<open>b\<close> of bytes (each element in \<open>[0, 255]\<close>), converting to
  5-bit groups with padding and back without padding gives \<open>b\<close> again, and neither
  call raises: \<open>convertBits (convertBits b 8 5 True) 5 8 False = b\<close>.
\<close>

theorem convertBits_roundtrip:
  assumes "\<forall>x\<in>set b. 0 \<le> x \<and> x \<le> 255"
  shows "\<exists>w. convertBits b 8 5 True = Some (Inr w) \<and> convertBits w 5 8 False = Some (Inr b)"
  using convertBits_8_5_8 [OF assms] by blast

theorem convertBits_roundtrip_witness:
  "list_all (\<lambda>x. 0 \<le> x \<and> x \<le> 255) [255, 1, 2 :: int] \<and>
   (\<exists>w. convertBits [255, 1, 2] 8 5 True = Some (Inr w) \<and>
        convertBits w 5 8 False = Some (Inr [255, 1, 2]))"
proof -
  have h: "\<forall>x\<in>set [255, 1, 2 :: int]. 0 \<le> x \<and> x \<le> 255" by simp
  show ?thesis using h convertBits_roundtrip [OF h] by simp
qed

section \<open>Symbols stay inside the alphabet\<close>

lemma js_and_range:
  assumes "0 \<le> m" "m < 2 ^ 31"
  shows "0 \<le> js_and x m \<and> js_and x m \<le> m"
proof -
  have "0 \<le> x AND m" using assms by simp
  moreover have "x AND m \<le> m" using assms by (simp add: AND_upper2)
  ultimately show ?thesis using assms by (simp add: js_and_int stb31_id)
qed

lemma while_range:
  assumes "convertBits_while acc t mv bits ret = Some y"
  shows "(\<forall>x. Q (js_and x mv)) \<longrightarrow> (\<forall>d\<in>set ret. Q d) \<longrightarrow> (\<forall>d\<in>set (snd y). Q d)"
proof (rule convertBits_while.raw_induct
    [where P = "\<lambda>acc t mv bits ret y.
       (\<forall>x. Q (js_and x mv)) \<longrightarrow> (\<forall>d\<in>set ret. Q d) \<longrightarrow> (\<forall>d\<in>set (snd y). Q d)", OF _ assms])
  fix cw :: "int \<Rightarrow> int \<Rightarrow> int \<Rightarrow> int \<Rightarrow> int list \<Rightarrow> (int \<times> int list) option"
    and acc t mv bits ret y
  assume IH: "\<And>acc t mv bits ret y. cw acc t mv bits ret = Some y \<Longrightarrow>
       (\<forall>x. Q (js_and x mv)) \<longrightarrow> (\<forall>d\<in>set ret. Q d) \<longrightarrow> (\<forall>d\<in>set (snd y). Q d)"
    and eq: "(if t \<le> bits
       then cw acc t mv (bits - t) (ret @ [js_and (js_sar acc (bits - t)) mv])
       else Some (bits, ret)) = Some y"
  show "(\<forall>x. Q (js_and x mv)) \<longrightarrow> (\<forall>d\<in>set ret. Q d) \<longrightarrow> (\<forall>d\<in>set (snd y). Q d)"
  proof (cases "t \<le> bits")
    case True
    with eq have "cw acc t mv (bits - t) (ret @ [js_and (js_sar acc (bits - t)) mv]) = Some y"
      by simp
    from IH [OF this] show ?thesis by simp
  next
    case False
    with eq show ?thesis by auto
  qed
qed

lemma for_range:
  assumes "\<forall>x. Q (js_and x mv)"
  shows "convertBits_for data fb t mv acc bits ret = Some (Inr (acc', bits', ret')) \<Longrightarrow>
     (\<forall>d\<in>set ret. Q d) \<Longrightarrow> (\<forall>d\<in>set ret'. Q d)"
proof (induction data arbitrary: acc bits ret)
  case Nil
  then show ?case by simp
next
  case (Cons v vs)
  from Cons.prems(1) obtain b1 r1 where
    w: "convertBits_while (js_or (js_shl acc fb) v) t mv (bits + fb) ret = Some (b1, r1)"
    and f: "convertBits_for vs fb t mv (js_or (js_shl acc fb) v) b1 r1 = Some (Inr (acc', bits', ret'))"
    by (auto simp: Let_def split: if_splits option.splits)
  from while_range [OF w, of Q] assms Cons.prems(2) have "\<forall>d\<in>set r1. Q d" by simp
  from Cons.IH [OF f this] show ?case .
qed

lemma convertBits_range:
  assumes "0 < toBits" "toBits \<le> 30" "convertBits data fromBits toBits pad = Some (Inr ret)"
  shows "\<forall>d\<in>set ret. 0 \<le> d \<and> d \<le> 2 ^ nat toBits - 1"
proof -
  define mv :: int where "mv = 2 ^ nat toBits - 1"
  have mv: "js_shl 1 toBits - 1 = mv"
    using assms(1,2) by (simp add: js_shl_1 mv_def)
  have "(2::int) ^ nat toBits \<le> 2 ^ 30" using assms by (intro power_increasing) simp_all
  then have "0 \<le> mv" "mv < 2 ^ 31" by (simp_all add: mv_def)
  then have Q: "\<forall>x. 0 \<le> js_and x mv \<and> js_and x mv \<le> mv"
    using js_and_range by blast
  from assms(3) obtain acc bits r where
    f: "convertBits_for data fromBits toBits mv 0 0 [] = Some (Inr (acc, bits, r))"
    and r: "ret = r \<or> ret = r @ [js_and (js_shl acc (toBits - bits)) mv]"
    by (auto simp: convertBits_def mv split: option.splits sum.splits if_splits)
  have "\<forall>d\<in>set r. 0 \<le> d \<and> d \<le> mv"
    using for_range [where Q = "\<lambda>d. 0 \<le> d \<and> d \<le> mv", OF Q f] by simp
  with r Q show ?thesis unfolding mv_def by auto
qed

lemma createChecksum_range: "\<forall>d\<in>set (createChecksum hrp data). 0 \<le> d \<and> d \<le> 31"
  using js_and_range [of 31] by (auto simp: createChecksum_def Let_def)

lemma uint_byte_range: "\<forall>x\<in>set (map uint (bs :: byte list)). 0 \<le> x \<and> x \<le> 255"
proof -
  have "uint (b :: byte) < 2 ^ 8" for b using uint_lt2p [of b] by simp
  then have "uint (b :: byte) \<le> 255" for b using zle_diff1_eq [of "uint b" 256] by simp
  then show ?thesis by simp
qed

lemma concat_charset_at:
  "\<forall>d\<in>set ds. 0 \<le> d \<and> d \<le> 31 \<Longrightarrow> concat (map charset_at ds) = map (\<lambda>d. charset ! nat d) ds"
  by (induction ds) (auto simp: charset_at_def)

lemma encodeKey_total:
  "\<exists>words. convertBits (map uint (hexToBytes hex)) 8 5 True = Some (Inr words) \<and>
     (\<forall>d\<in>set (words @ createChecksum hrp words). 0 \<le> d \<and> d \<le> 31) \<and>
     encodeKey hrp hex = Some (Inr (hrp @ ''1'' @
        map (\<lambda>d. charset ! nat d) (words @ createChecksum hrp words)))"
proof -
  from convertBits_8_5_8 [OF uint_byte_range, of "hexToBytes hex"] obtain w where
    w: "convertBits (map uint (hexToBytes hex)) 8 5 True = Some (Inr w)"
       "\<forall>d\<in>set w. 0 \<le> d \<and> d < 32"
    by blast
  have r: "\<forall>d\<in>set (w @ createChecksum hrp w). 0 \<le> d \<and> d \<le> 31"
    using w(2) createChecksum_range by auto
  have "encodeKey hrp hex = Some (Inr (hrp @ ''1'' @
        map (\<lambda>d. charset ! nat d) (w @ createChecksum hrp w)))"
    using w(1) concat_charset_at [OF r] by (simp add: encodeKey_def encode_def Let_def)
  with w(1) r show ?thesis by blast
qed

text \<open>
  C10. Whenever \<open>convertBits data fromBits toBits pad\<close> returns a list and
  \<open>0 < toBits \<le> 30\<close>, every element of the list lies in \<open>[0, 2 ^ toBits - 1]\<close>. Every
  symbol of \<open>createChecksum\<close> lies in \<open>[0, 31]\<close>. So in the encoding of a key, all the
  symbols that \<open>encode\<close> looks up (those of \<open>convertBits\<close> and of \<open>createChecksum\<close>)
  are in \<open>[0, 31]\<close>, each is mapped to a character of the alphabet, and
  \<open>''undefined''\<close> is never appended.
\<close>

theorem encode_symbols_in_alphabet:
  "(0 < toBits \<and> toBits \<le> 30 \<and> convertBits data fromBits toBits pad = Some (Inr ret) \<longrightarrow>
      (\<forall>d\<in>set ret. 0 \<le> d \<and> d \<le> 2 ^ nat toBits - 1)) \<and>
   (\<forall>d\<in>set (createChecksum hrp cdata). 0 \<le> d \<and> d \<le> 31) \<and>
   (\<exists>words. convertBits (map uint (hexToBytes hex)) 8 5 True = Some (Inr words) \<and>
      (\<forall>d\<in>set (words @ createChecksum hrp words). 0 \<le> d \<and> d \<le> 31) \<and>
      encodeKey hrp hex = Some (Inr (hrp @ ''1'' @
        map (\<lambda>d. charset ! nat d) (words @ createChecksum hrp words))))"
  using convertBits_range [of toBits data fromBits pad ret]
    createChecksum_range [of hrp cdata] encodeKey_total [of hex hrp]
  by blast

theorem encode_symbols_in_alphabet_witness:
  "(0 < (5::int) \<and> (5::int) \<le> 30 \<and>
      convertBits [255, 1, 2] 8 5 True = Some (Inr [31, 28, 0, 16, 4])) \<and>
   list_all (\<lambda>d. 0 \<le> d \<and> d \<le> 2 ^ nat 5 - 1) [31, 28, 0, 16, 4 :: int] \<and>
   createChecksum ''npub'' [31, 28, 0, 16, 4] = [7, 13, 9, 22, 4, 23] \<and>
   list_all (\<lambda>d. 0 \<le> d \<and> d \<le> 31) (createChecksum ''npub'' [31, 28, 0, 16, 4]) \<and>
   encodeKey ''npub'' ''ff0102'' = Some (Inr ''npub1luqsy8dfkyh'')"
proof -
  have e1: "convertBits [255, 1, 2] 8 5 True = Some (Inr [31, 28, 0, 16, 4])"
    by code_simp
  have e2: "createChecksum ''npub'' [31, 28, 0, 16, 4] = [7, 13, 9, 22, 4, 23]"
    by code_simp
  have e3: "encodeKey ''npub'' ''ff0102'' = Some (Inr ''npub1luqsy8dfkyh'')"
    by code_simp
  show ?thesis
    using encode_symbols_in_alphabet
      [of 5 "[255, 1, 2]" 8 True "[31, 28, 0, 16, 4]" "''npub''" "[31, 28, 0, 16, 4]" "''ff0102''"]
      e1 e2 e3
    by simp
qed


section \<open>The checksum verifies\<close>

lemma xor_range30: "0 \<le> a \<Longrightarrow> a < 2 ^ 30 \<Longrightarrow> 0 \<le> b \<Longrightarrow> b < 2 ^ 30 \<Longrightarrow>
    0 \<le> a XOR b \<and> a XOR b < (2 ^ 30 :: int)"
  using XOR_upper [of a 30 b] by simp

lemma js_xor_small: "0 \<le> a \<Longrightarrow> a < 2 ^ 30 \<Longrightarrow> 0 \<le> b \<Longrightarrow> b < 2 ^ 30 \<Longrightarrow>
    js_xor a b = a XOR b"
proof -
  assume a: "0 \<le> a" "a < 2 ^ 30" "0 \<le> b" "b < 2 ^ 30"
  then have "0 \<le> a XOR b" "a XOR b < 2 ^ 30" using xor_range30 by simp_all
  then show ?thesis by (simp add: js_xor_int stb31_id)
qed

lemma GEN_range: "i < 5 \<Longrightarrow> 0 \<le> GEN ! i \<and> GEN ! i < 2 ^ 30"
proof -
  assume "i < 5"
  then have "i = 0 \<or> i = 1 \<or> i = 2 \<or> i = 3 \<or> i = 4" by linarith
  then show ?thesis by (auto simp: GEN_def)
qed

lemma sel_range: "i < 5 \<Longrightarrow> 0 \<le> sel p (GEN ! i) \<and> sel p (GEN ! i) < 2 ^ 30"
  using GEN_range [of i] by (simp add: sel_def)

lemma top_bit: 
  assumes "0 \<le> t" "t < 2 ^ 30" "i < 5"
  shows "(js_and (js_sar t (int i)) 1 \<noteq> 0) = bit t i"
proof -
  have n: "nat (int i mod 32) = i" using assms by simp
  have "js_and (js_sar t (int i)) (2 ^ 1 - 1) = take_bit 1 (js_sar t (int i))"
    by (rule js_and_mask) simp
  then have "js_and (js_sar t (int i)) 1 = take_bit 1 (drop_bit i t)"
    using assms by (simp add: js_sar_int n stb31_id)
  then show ?thesis by (simp add: take_bit_eq_mod drop_bit_eq_div bit_iff_odd odd_iff_mod_2_eq_one)
qed

lemma gen_fold:
  assumes "0 \<le> t" "t < 2 ^ 30"
  shows "\<forall>i\<in>set xs. i < 5 \<Longrightarrow> 0 \<le> c \<Longrightarrow> c < 2 ^ 30 \<Longrightarrow>
    foldl (\<lambda>c i. if js_and (js_sar t (int i)) 1 \<noteq> 0 then js_xor c (GEN ! i) else c) c xs
      = foldl (\<lambda>c i. c XOR sel (bit t i) (GEN ! i)) c xs \<and>
    0 \<le> foldl (\<lambda>c i. c XOR sel (bit t i) (GEN ! i)) c xs \<and>
    foldl (\<lambda>c i. c XOR sel (bit t i) (GEN ! i)) c xs < 2 ^ 30"
proof (induction xs arbitrary: c)
  case Nil
  then show ?case by simp
next
  case (Cons i xs)
  have i: "i < 5" using Cons.prems by simp
  have g: "0 \<le> GEN ! i" "GEN ! i < 2 ^ 30" using GEN_range [OF i] by simp_all
  have e: "(if js_and (js_sar t (int i)) 1 \<noteq> 0 then js_xor c (GEN ! i) else c)
      = c XOR sel (bit t i) (GEN ! i)"
    using top_bit [OF assms i] js_xor_small [OF Cons.prems(2,3) g] by (simp add: sel_def)
  have r: "0 \<le> c XOR sel (bit t i) (GEN ! i)" "c XOR sel (bit t i) (GEN ! i) < 2 ^ 30"
    using xor_range30 [OF Cons.prems(2,3), of "sel (bit t i) (GEN ! i)"]
      sel_range [OF i, of "bit t i"] by simp_all
  have xs: "\<forall>i\<in>set xs. i < 5" using Cons.prems by simp
  from Cons.IH [OF xs r] show ?case by (simp add: e)
qed

lemma foldl_xor_shift:
  "foldl (\<lambda>c i. c XOR f i) c xs = c XOR foldl (\<lambda>c i. c XOR f i) (0::int) xs"
proof (induction xs rule: rev_induct)
  case Nil
  then show ?case by simp
next
  case (snoc x xs)
  then show ?case by (simp add: xor.assoc)
qed

lemma polymod_step_eq:
  assumes "0 \<le> c" "c < 2 ^ 30" "0 \<le> v" "v < 2 ^ 30"
  shows "polymod_step c v = pstep c v \<and> 0 \<le> pstep c v \<and> pstep c v < 2 ^ 30"
proof -
  define top where "top = drop_bit 25 c"
  have top: "js_sar c 25 = top" using assms by (simp add: js_sar_int stb31_id top_def)
  have topr: "0 \<le> top" "top < 2 ^ 30"
  proof -
    show "0 \<le> top" using assms by (simp add: top_def)
    have "c div 2 ^ 25 \<le> 2 ^ 30 div 2 ^ 25"
      using assms(2) by (intro zdiv_mono1) simp_all
    then show "top < 2 ^ 30" by (simp add: top_def drop_bit_eq_div)
  qed
  define c1 where "c1 = push_bit 5 (take_bit 25 c) XOR v"
  have "js_and c (2 ^ 25 - 1) = take_bit 25 c" by (rule js_and_mask) simp
  then have m: "js_and c 0x1ffffff = take_bit 25 c" by simp
  have pr: "0 \<le> push_bit 5 (take_bit 25 c)" "push_bit 5 (take_bit 25 c) < 2 ^ 30"
    using take_bit_int_less_exp [of 25 c] by (simp_all add: push_bit_eq_mult)
  then have sh: "js_shl (take_bit 25 c) 5 = push_bit 5 (take_bit 25 c)"
    by (simp add: js_shl_int stb31_id)
  have c1: "js_xor (js_shl (js_and c 0x1ffffff) 5) v = c1"
    unfolding m sh c1_def using pr assms(3,4) by (rule js_xor_small)
  have c1r: "0 \<le> c1" "c1 < 2 ^ 30"
    using xor_range30 [OF pr assms(3,4)] by (simp_all add: c1_def)
  have u: "\<forall>i\<in>set [0..<5]. i < 5" by simp
  note gf = gen_fold [OF topr u c1r]
  have "polymod_step c v = foldl (\<lambda>c i. c XOR sel (bit top i) (GEN ! i)) c1 [0..<5]"
    using gf by (simp add: polymod_step_def Let_def top c1)
  also have "\<dots> = c1 XOR gen top"
    unfolding gen_def by (rule foldl_xor_shift)
  finally have "polymod_step c v = pstep c v"
    by (simp add: pstep_def c1_def top_def xor.assoc)
  moreover have "foldl (\<lambda>c i. c XOR sel (bit top i) (GEN ! i)) c1 [0..<5] = pstep c v"
    using foldl_xor_shift [of "\<lambda>i. sel (bit top i) (GEN ! i)" c1 "[0..<5]"]
    by (simp add: pstep_def c1_def top_def gen_def xor.assoc)
  ultimately show ?thesis using gf by simp
qed

lemma foldl_xor_split:
  "foldl (\<lambda>c i. c XOR (f i XOR h i)) (0::int) xs =
   foldl (\<lambda>c i. c XOR f i) 0 xs XOR foldl (\<lambda>c i. c XOR h i) 0 xs"
proof (induction xs rule: rev_induct)
  case Nil
  then show ?case by simp
next
  case (snoc x xs)
  show ?case
    by (simp add: snoc xor.assoc xor.left_commute)
qed

lemma sel_xor: "sel (bit (a XOR b) i) g = sel (bit a i) g XOR sel (bit b i) g"
  by (simp add: sel_def bit_xor_iff)

lemma gen_fold_xor:
  "foldl (\<lambda>c i. c XOR sel (bit (a XOR b) i) (g i)) (0::int) xs =
   foldl (\<lambda>c i. c XOR sel (bit a i) (g i)) 0 xs XOR foldl (\<lambda>c i. c XOR sel (bit b i) (g i)) 0 xs"
  unfolding sel_xor by (rule foldl_xor_split)

lemma gen_xor: "gen (a XOR b) = gen a XOR gen b"
  unfolding gen_def by (rule gen_fold_xor)

lemma gen_0: "gen 0 = 0"
proof -
  have "foldl (\<lambda>c i. c XOR sel (bit (0::int) i) (GEN ! i)) 0 xs = 0" for xs
    by (induction xs rule: rev_induct) (simp_all add: sel_def)
  then show ?thesis by (simp add: gen_def)
qed

lemma pstep_xor: "pstep (c XOR d) (v XOR u) = pstep c v XOR pstep d u"
  by (simp add: pstep_def gen_xor take_bit_xor push_bit_xor drop_bit_xor xor.assoc xor.left_commute)

lemma pstep_0: "pstep c v = pstep c 0 XOR pstep 0 v"
  using pstep_xor [of c 0 0 v] by simp

lemma pstep_0v: "pstep 0 v = v"
  by (simp add: pstep_def gen_0)

lemma pstep_small:
  assumes "0 \<le> s" "s < 2 ^ 25"
  shows "pstep s 0 = push_bit 5 s"
proof -
  have "take_bit 25 s = s" using assms by (simp add: take_bit_int_eq_self)
  moreover have "drop_bit 25 s = 0" using assms by (simp add: drop_bit_eq_div)
  ultimately show ?thesis by (simp add: pstep_def gen_0)
qed

lemma chunk5:
  "push_bit k (take_bit 5 (drop_bit k m)) XOR take_bit k m = take_bit (k + 5) (m::int)"
  by (auto simp: bit_eq_iff bit_xor_iff bit_push_bit_iff_int bit_take_bit_iff bit_drop_bit_eq)

lemma recompose30:
  "push_bit 25 (take_bit 5 (drop_bit 25 m)) XOR push_bit 20 (take_bit 5 (drop_bit 20 m)) XOR
   push_bit 15 (take_bit 5 (drop_bit 15 m)) XOR push_bit 10 (take_bit 5 (drop_bit 10 m)) XOR
   push_bit 5 (take_bit 5 (drop_bit 5 m)) XOR take_bit 5 m = take_bit 30 (m::int)"
  using chunk5 [of 5 m] chunk5 [of 10 m] chunk5 [of 15 m] chunk5 [of 20 m] chunk5 [of 25 m]
  by simp

lemma pstep_acc: "pstep (pstep c 0 XOR a) v = pstep (pstep c 0) 0 XOR pstep a 0 XOR v"
  using pstep_xor [of "pstep c 0" a 0 v] pstep_0 [of a v]
  by (simp add: pstep_0v xor.assoc xor.left_commute)

lemma take5_range: "0 \<le> take_bit 5 (x::int) \<and> take_bit 5 x < 2 ^ 5"
  using take_bit_int_less_exp [of 5 x] by simp

lemma push_small:
  assumes "0 \<le> s" "s < 2 ^ 5" "k \<le> 20"
  shows "pstep (push_bit k s) 0 = push_bit (k + 5) s"
proof -
  have "push_bit k s < 2 ^ k * 2 ^ 5" using assms(2) by (simp add: push_bit_eq_mult)
  also have "\<dots> = 2 ^ (k + 5)" by (simp add: power_add)
  also have "\<dots> \<le> (2::int) ^ 25" using assms(3) by (intro power_increasing) simp_all
  finally have "push_bit k s < 2 ^ 25" .
  moreover have "0 \<le> push_bit k s" using assms(1) by (simp add: push_bit_eq_mult)
  ultimately have "pstep (push_bit k s) 0 = push_bit 5 (push_bit k s)"
    by (rule pstep_small [rotated])
  then show ?thesis by (simp add: add.commute)
qed

lemma checksum_cancel:
  fixes c :: int
  defines "z \<equiv> foldl pstep c [0, 0, 0, 0, 0, 0]"
  assumes z: "0 \<le> z" "z < 2 ^ 30"
  defines "m \<equiv> z XOR 1"
  shows "foldl pstep c [take_bit 5 (drop_bit 25 m), take_bit 5 (drop_bit 20 m),
     take_bit 5 (drop_bit 15 m), take_bit 5 (drop_bit 10 m), take_bit 5 (drop_bit 5 m),
     take_bit 5 (drop_bit 0 m)] = 1"
proof -
  define s0 where "s0 = take_bit 5 (drop_bit 25 m)"
  define s1 where "s1 = take_bit 5 (drop_bit 20 m)"
  define s2 where "s2 = take_bit 5 (drop_bit 15 m)"
  define s3 where "s3 = take_bit 5 (drop_bit 10 m)"
  define s4 where "s4 = take_bit 5 (drop_bit 5 m)"
  define s5 where "s5 = take_bit 5 m"
  note sd = s0_def s1_def s2_def s3_def s4_def s5_def
  have r: "0 \<le> s0" "s0 < 2 ^ 5" "0 \<le> s1" "s1 < 2 ^ 5" "0 \<le> s2" "s2 < 2 ^ 5"
    "0 \<le> s3" "s3 < 2 ^ 5" "0 \<le> s4" "s4 < 2 ^ 5"
    unfolding sd using take5_range by blast+
  have p0: "pstep s0 0 = push_bit 5 s0" "pstep (push_bit 5 s0) 0 = push_bit 10 s0"
    "pstep (push_bit 10 s0) 0 = push_bit 15 s0" "pstep (push_bit 15 s0) 0 = push_bit 20 s0"
    "pstep (push_bit 20 s0) 0 = push_bit 25 s0"
    using push_small [OF r(1,2), of 0] push_small [OF r(1,2), of 5] push_small [OF r(1,2), of 10]
      push_small [OF r(1,2), of 15] push_small [OF r(1,2), of 20] by simp_all
  have p1: "pstep s1 0 = push_bit 5 s1" "pstep (push_bit 5 s1) 0 = push_bit 10 s1"
    "pstep (push_bit 10 s1) 0 = push_bit 15 s1" "pstep (push_bit 15 s1) 0 = push_bit 20 s1"
    using push_small [OF r(3,4), of 0] push_small [OF r(3,4), of 5] push_small [OF r(3,4), of 10]
      push_small [OF r(3,4), of 15] by simp_all
  have p2: "pstep s2 0 = push_bit 5 s2" "pstep (push_bit 5 s2) 0 = push_bit 10 s2"
    "pstep (push_bit 10 s2) 0 = push_bit 15 s2"
    using push_small [OF r(5,6), of 0] push_small [OF r(5,6), of 5] push_small [OF r(5,6), of 10]
    by simp_all
  have p3: "pstep s3 0 = push_bit 5 s3" "pstep (push_bit 5 s3) 0 = push_bit 10 s3"
    using push_small [OF r(7,8), of 0] push_small [OF r(7,8), of 5] by simp_all
  have p4: "pstep s4 0 = push_bit 5 s4"
    using push_small [OF r(9,10), of 0] by simp
  define a1 where "a1 = pstep c 0"
  define a2 where "a2 = pstep a1 0"
  define a3 where "a3 = pstep a2 0"
  define a4 where "a4 = pstep a3 0"
  define a5 where "a5 = pstep a4 0"
  have zz: "z = pstep a5 0" by (simp add: z_def a1_def a2_def a3_def a4_def a5_def)
  have e1: "pstep c s0 = a1 XOR s0"
    using pstep_0 [of c s0] by (simp add: pstep_0v a1_def)
  have e2: "pstep (a1 XOR s0) s1 = a2 XOR (push_bit 5 s0 XOR s1)"
    unfolding a1_def a2_def by (simp add: pstep_acc p0 xor.assoc)
  have e3: "pstep (a2 XOR (push_bit 5 s0 XOR s1)) s2
      = a3 XOR (push_bit 10 s0 XOR push_bit 5 s1 XOR s2)"
    unfolding a2_def a3_def by (simp add: pstep_acc pstep_xor [of _ _ 0 0, simplified] p0 p1 xor.assoc)
  have e4: "pstep (a3 XOR (push_bit 10 s0 XOR push_bit 5 s1 XOR s2)) s3
      = a4 XOR (push_bit 15 s0 XOR push_bit 10 s1 XOR push_bit 5 s2 XOR s3)"
    unfolding a3_def a4_def
    by (simp add: pstep_acc pstep_xor [of _ _ 0 0, simplified] p0 p1 p2 xor.assoc)
  have e5: "pstep (a4 XOR (push_bit 15 s0 XOR push_bit 10 s1 XOR push_bit 5 s2 XOR s3)) s4
      = a5 XOR (push_bit 20 s0 XOR push_bit 15 s1 XOR push_bit 10 s2 XOR push_bit 5 s3 XOR s4)"
    unfolding a4_def a5_def
    by (simp add: pstep_acc pstep_xor [of _ _ 0 0, simplified] p0 p1 p2 p3 xor.assoc)
  have e6: "pstep (a5 XOR (push_bit 20 s0 XOR push_bit 15 s1 XOR push_bit 10 s2 XOR
        push_bit 5 s3 XOR s4)) s5
      = z XOR (push_bit 25 s0 XOR push_bit 20 s1 XOR push_bit 15 s2 XOR push_bit 10 s3 XOR
        push_bit 5 s4 XOR s5)"
    unfolding a5_def zz
    by (simp add: pstep_acc pstep_xor [of _ _ 0 0, simplified] p0 p1 p2 p3 p4 xor.assoc)
  have mr: "0 \<le> m" "m < 2 ^ 30"
    using xor_range30 [OF z, of 1] by (simp_all add: m_def)
  have "push_bit 25 s0 XOR push_bit 20 s1 XOR push_bit 15 s2 XOR push_bit 10 s3 XOR
        push_bit 5 s4 XOR s5 = take_bit 30 m"
    unfolding sd by (rule recompose30)
  also have "\<dots> = m" using mr by (simp add: take_bit_int_eq_self)
  finally have "z XOR (push_bit 25 s0 XOR push_bit 20 s1 XOR push_bit 15 s2 XOR
      push_bit 10 s3 XOR push_bit 5 s4 XOR s5) = 1"
    by (simp add: m_def flip: xor.assoc)
  then have "foldl pstep c [s0, s1, s2, s3, s4, s5] = 1"
    by (simp add: e1 e2 e3 e4 e5 e6)
  then show ?thesis by (simp add: sd)
qed

lemma polymod_fold:
  "\<forall>v\<in>set vs. 0 \<le> v \<and> v < 2 ^ 30 \<Longrightarrow> 0 \<le> c \<Longrightarrow> c < 2 ^ 30 \<Longrightarrow>
    foldl polymod_step c vs = foldl pstep c vs \<and>
    0 \<le> foldl pstep c vs \<and> foldl pstep c vs < 2 ^ 30"
proof (induction vs arbitrary: c)
  case Nil
  then show ?case by simp
next
  case (Cons v vs)
  have v: "0 \<le> v" "v < 2 ^ 30" using Cons.prems(1) by simp_all
  note s = polymod_step_eq [OF Cons.prems(2,3) v]
  have vs: "\<forall>v\<in>set vs. 0 \<le> v \<and> v < 2 ^ 30" using Cons.prems(1) by simp
  from Cons.IH [OF vs, of "pstep c v"] s show ?case by simp
qed

lemma hrpExpand_range: "\<forall>v\<in>set (hrpExpand hrp). 0 \<le> v \<and> v < 2 ^ 30"
proof -
  have c: "0 \<le> (of_char c :: int) \<and> (of_char c :: int) < 2 ^ 31" for c
  proof -
    have "0 \<le> (of_char c :: int) mod 256" by (rule pos_mod_sign) simp
    moreover have "(of_char c :: int) mod 256 < 256" by (rule pos_mod_bound) simp
    ultimately have "0 \<le> (of_char c :: int)" "(of_char c :: int) < 256"
      by (simp_all only: of_char_mod_256)
    then show ?thesis by simp
  qed
  have a: "0 \<le> js_sar (of_char c) 5 \<and> js_sar (of_char c) 5 < 2 ^ 30" for c
  proof -
    have "js_sar (of_char c) 5 = (of_char c :: int) div 2 ^ 5"
      using c [of c] by (simp add: js_sar_int stb31_id drop_bit_eq_div)
    moreover have "(of_char c :: int) div 2 ^ 5 \<le> 2 ^ 31 div 2 ^ 5"
      using c [of c] by (intro zdiv_mono1) simp_all
    moreover have "0 \<le> (of_char c :: int) div 2 ^ 5"
      using c [of c] by (intro pos_imp_zdiv_nonneg_iff [THEN iffD2]) simp_all
    ultimately show ?thesis by simp
  qed
  have b: "0 \<le> js_and (of_char c) 31 \<and> js_and (of_char c) 31 < 2 ^ 30" for c
    using js_and_range [of 31 "of_char c"] by simp
  show ?thesis using a b by (auto simp: hrpExpand_def)
qed

lemma checksum_symbol:
  assumes "0 \<le> m" "m < 2 ^ 30" "k < 32"
  shows "js_and (js_sar m (int k)) 31 = take_bit 5 (drop_bit k m)"
proof -
  have n: "nat (int k mod 32) = k" using assms by simp
  have "js_and (js_sar m (int k)) (2 ^ 5 - 1) = take_bit 5 (js_sar m (int k))"
    by (rule js_and_mask) simp
  then show ?thesis using assms by (simp add: js_sar_int n stb31_id)
qed

lemma upt6: "[0..<6] = [0, 1, 2, 3, 4, 5]"
  by code_simp

lemma verifyChecksum_createChecksum:
  assumes "\<forall>d\<in>set data. 0 \<le> d \<and> d < 32"
  shows "verifyChecksum hrp (data @ createChecksum hrp data)"
proof -
  define A where "A = hrpExpand hrp @ data"
  have A: "\<forall>v\<in>set A. 0 \<le> v \<and> v < 2 ^ 30"
    using hrpExpand_range [of hrp] assms by (auto simp: A_def)
  define c where "c = foldl pstep 1 A"
  have c: "foldl polymod_step 1 A = c" "0 \<le> c" "c < 2 ^ 30"
    using polymod_fold [OF A, of 1] by (simp_all add: c_def)
  define z where "z = foldl pstep c [0, 0, 0, 0, 0, 0]"
  have z: "foldl polymod_step c [0, 0, 0, 0, 0, 0] = z" "0 \<le> z" "z < 2 ^ 30"
    using polymod_fold [of "[0, 0, 0, 0, 0, 0]" c] c(2,3) by (simp_all add: z_def)
  have pz: "polymod (hrpExpand hrp @ data @ [0, 0, 0, 0, 0, 0]) = z"
    using c(1) z(1) by (simp add: polymod_def A_def)
  define m where "m = z XOR 1"
  have m: "js_xor z 1 = m" "0 \<le> m" "m < 2 ^ 30"
    using js_xor_small [OF z(2,3), of 1] xor_range30 [OF z(2,3), of 1] by (simp_all add: m_def)
  define cs where "cs = [take_bit 5 (drop_bit 25 m), take_bit 5 (drop_bit 20 m),
     take_bit 5 (drop_bit 15 m), take_bit 5 (drop_bit 10 m), take_bit 5 (drop_bit 5 m),
     take_bit 5 (drop_bit 0 m)]"
  have cs: "createChecksum hrp data = cs"
    using checksum_symbol [OF m(2,3), of 25] checksum_symbol [OF m(2,3), of 20]
      checksum_symbol [OF m(2,3), of 15] checksum_symbol [OF m(2,3), of 10]
      checksum_symbol [OF m(2,3), of 5] checksum_symbol [OF m(2,3), of 0]
    by (simp add: createChecksum_def Let_def pz m(1) upt6 cs_def)
  have csr: "\<forall>v\<in>set cs. 0 \<le> v \<and> v < 2 ^ 30"
  proof
    fix v assume "v \<in> set cs"
    then obtain x where "v = take_bit 5 x" by (auto simp: cs_def)
    then show "0 \<le> v \<and> v < 2 ^ 30" using take_bit_int_less_exp [of 5 x] by simp
  qed
  have "foldl pstep c cs = 1"
    unfolding cs_def m_def z_def using z(2,3) unfolding z_def by (rule checksum_cancel)
  then have "foldl polymod_step c cs = 1"
    using polymod_fold [OF csr c(2,3)] by simp
  then have "polymod (A @ cs) = 1"
    using c(1) by (simp add: polymod_def)
  then show ?thesis by (simp add: verifyChecksum_def cs A_def)
qed


section \<open>Decoding an encoded key\<close>

lemma lastIndexOf_ge: "- 1 \<le> lastIndexOf xs c"
  by (induction xs) (auto simp: Let_def)

lemma lastIndexOf_notin: "c \<notin> set ys \<Longrightarrow> lastIndexOf ys c = - 1"
  by (induction ys) (auto simp: Let_def)

lemma lastIndexOf_sep: "c \<notin> set ys \<Longrightarrow> lastIndexOf (xs @ c # ys) c = int (length xs)"
  by (induction xs) (auto simp: Let_def lastIndexOf_notin)

lemma indexOf_nth: "distinct xs \<Longrightarrow> n < length xs \<Longrightarrow> indexOf xs (xs ! n) = int n"
proof (induction xs arbitrary: n)
  case Nil
  then show ?case by simp
next
  case (Cons x xs)
  show ?case
  proof (cases n)
    case 0
    then show ?thesis by simp
  next
    case (Suc k)
    then have k: "k < length xs" using Cons.prems by simp
    then have "xs ! k \<in> set xs" by simp
    then have "x \<noteq> xs ! k" using Cons.prems(1) by auto
    then show ?thesis using Cons.IH [OF _ k] Cons.prems(1) Suc by (simp add: Let_def)
  qed
qed

lemma charset_facts: "distinct charset" "length charset = 32" "CHR ''1'' \<notin> set charset"
  by (simp_all add: charset_def)

lemma decode_chars_symbols:
  "\<forall>d\<in>set ds. 0 \<le> d \<and> d < 32 \<Longrightarrow>
    decode_chars (map (\<lambda>d. charset ! nat d) ds) = Inr ds"
proof (induction ds)
  case Nil
  then show ?case by simp
next
  case (Cons d ds)
  have "0 \<le> d \<and> d < 32" using Cons.prems by simp
  then have d: "nat d < length charset" "int (nat d) = d"
    unfolding charset_facts by linarith+
  have "indexOf charset (charset ! nat d) = d"
    using indexOf_nth [OF charset_facts(1) d(1)] d(2) by simp
  moreover have "d \<noteq> - 1" using Cons.prems by auto
  ultimately show ?case using Cons by (simp add: Let_def)
qed

lemma decode_encode:
  assumes "hrp \<noteq> []" "\<forall>d\<in>set data. 0 \<le> d \<and> d < 32"
  shows "decode (encode hrp data) = Inr (hrp, data)"
proof -
  define cs where "cs = createChecksum hrp data"
  have csr: "\<forall>d\<in>set cs. 0 \<le> d \<and> d \<le> 31" unfolding cs_def by (rule createChecksum_range)
  have r: "\<forall>d\<in>set (data @ cs). 0 \<le> d \<and> d < 32"
  proof
    fix d assume "d \<in> set (data @ cs)"
    then have "d \<in> set data \<or> d \<in> set cs" by simp
    then show "0 \<le> d \<and> d < 32" using assms(2) csr by fastforce
  qed
  have r': "\<forall>d\<in>set (data @ cs). 0 \<le> d \<and> d \<le> 31"
  proof
    fix d assume "d \<in> set (data @ cs)"
    with r have "0 \<le> d \<and> d < 32" by blast
    then show "0 \<le> d \<and> d \<le> 31" by linarith
  qed
  define body where "body = map (\<lambda>d. charset ! nat d) (data @ cs)"
  have enc: "encode hrp data = hrp @ CHR ''1'' # body"
    using concat_charset_at [OF r'] by (simp add: encode_def cs_def body_def)
  have "set body \<subseteq> set charset"
  proof
    fix x assume "x \<in> set body"
    then obtain d where d: "d \<in> set (data @ cs)" "x = charset ! nat d"
      by (auto simp: body_def)
    with r have "0 \<le> d \<and> d < 32" by blast
    then have "nat d < length charset" unfolding charset_facts by linarith
    then show "x \<in> set charset" using d(2) by simp
  qed
  then have "CHR ''1'' \<notin> set body" using charset_facts(3) by blast
  then have pos: "lastIndexOf (encode hrp data) CHR ''1'' = int (length hrp)"
    unfolding enc by (rule lastIndexOf_sep)
  have lcs: "length cs = 6" by (simp add: cs_def createChecksum_def)
  have lb: "length body = length data + 6" by (simp add: body_def lcs)
  have dc: "decode_chars body = Inr (data @ cs)"
    unfolding body_def using r by (rule decode_chars_symbols)
  have v: "verifyChecksum hrp (data @ cs)"
    unfolding cs_def using assms(2) by (rule verifyChecksum_createChecksum)
  have le: "length (encode hrp data) = length hrp + 1 + (length data + 6)"
    by (simp add: enc lb)
  have "0 < length hrp" using assms(1) by simp
  then have h1: "\<not> (int (length hrp) < 1 \<or> int (length hrp) + 7 > int (length (encode hrp data)))"
    unfolding le by linarith
  show ?thesis
    unfolding decode_def pos Let_def using h1 dc v
    by (simp add: enc lcs)
qed

lemma hexdigit_all:
  "list_all (\<lambda>c. is_hex c \<and> \<not> is_ws c \<and> c \<noteq> CHR ''-'' \<and> c \<noteq> CHR ''+'' \<and> c \<noteq> CHR ''x'' \<and>
     c \<noteq> CHR ''X'' \<and> hex_val c < 16 \<and> hexdigits ! hex_val c = c) hexdigits"
  by (simp add: hexdigits_def is_hex_def is_ws_def hex_val_def)

lemma hexdigit_facts:
  assumes "c \<in> set hexdigits"
  shows "is_hex c" "\<not> is_ws c" "c \<noteq> CHR ''-''" "c \<noteq> CHR ''+''" "c \<noteq> CHR ''x''"
    "c \<noteq> CHR ''X''" "hex_val c < 16" "hexdigits ! hex_val c = c"
  using assms hexdigit_all unfolding list_all_iff by blast+

lemma parseInt16_pair:
  assumes "c1 \<in> set hexdigits" "c2 \<in> set hexdigits"
  shows "parseInt16 [c1, c2] = Some (int (16 * hex_val c1 + hex_val c2))"
  using hexdigit_facts [OF assms(1)] hexdigit_facts [OF assms(2)]
  by (simp add: parseInt16_def hex_value_def Let_def)

lemma toString16_int: "toString16 (int n) = hex_of_nat n"
  by (simp add: toString16_def)

lemma hex_of_byte:
  assumes "c1 \<in> set hexdigits" "c2 \<in> set hexdigits"
  shows "padStart (toString16 (int (16 * hex_val c1 + hex_val c2))) 2 CHR ''0'' = [c1, c2]"
proof -
  note f1 = hexdigit_facts [OF assms(1)] and f2 = hexdigit_facts [OF assms(2)]
  define v1 where "v1 = hex_val c1"
  define v2 where "v2 = hex_val c2"
  have v: "v1 < 16" "v2 < 16" "hexdigits ! v1 = c1" "hexdigits ! v2 = c2"
    using f1 f2 by (simp_all add: v1_def v2_def)
  have "padStart (hex_of_nat (16 * v1 + v2)) 2 CHR ''0'' = [c1, c2]"
  proof (cases "v1 = 0")
    case True
    then have "c1 = CHR ''0''" using v(3) by (simp add: hexdigits_def)
    moreover have "hex_of_nat v2 = [c2]" using v(2,4) by (subst hex_of_nat.simps) simp
    ultimately show ?thesis using True
      by (simp add: padStart_def)
  next
    case False
    then have "\<not> 16 * v1 + v2 < 16" by simp
    moreover have "(16 * v1 + v2) div 16 = v1" "(16 * v1 + v2) mod 16 = v2"
      using v(2) by simp_all
    moreover have "hex_of_nat v1 = [c1]" using v(1,3) by (subst hex_of_nat.simps) simp
    ultimately have "hex_of_nat (16 * v1 + v2) = [c1, c2]"
      using v(4) by (subst hex_of_nat.simps) simp
    then show ?thesis
      by (simp add: padStart_def)
  qed
  then show ?thesis unfolding toString16_int v1_def v2_def .
qed

lemma byte_of_pair:
  assumes "c1 \<in> set hexdigits" "c2 \<in> set hexdigits"
  shows "uint (to_uint8 (parseInt16 [c1, c2])) = int (16 * hex_val c1 + hex_val c2)"
proof -
  define n where "n = 16 * hex_val c1 + hex_val c2"
  have "hex_val c1 < 16" "hex_val c2 < 16"
    using hexdigit_facts(7) assms by simp_all
  then have "n < 2 ^ LENGTH(8)" by (simp add: n_def)
  then have "unat (of_nat n :: byte) = n" by (simp add: unat_of_nat take_bit_nat_eq_self)
  then have "uint (word_of_int (int n) :: byte) = int n"
    by (simp add: uint_nat)
  then show ?thesis
    unfolding parseInt16_pair [OF assms] n_def [symmetric] by (simp add: to_uint8_def)
qed

lemma hexToBytes_loop_roundtrip:
  "even (length h) \<Longrightarrow> \<forall>c\<in>set h. c \<in> set hexdigits \<Longrightarrow>
     bytesToHex (map to_uint8 (hexToBytes_loop h)) = h \<and>
     length (hexToBytes_loop h) = length h div 2"
proof (induction h rule: hexToBytes_loop.induct)
  case 1
  then show ?case by (simp add: bytesToHex_def)
next
  case (2 c)
  then show ?case by simp
next
  case (3 c1 c2 rest)
  have c: "c1 \<in> set hexdigits" "c2 \<in> set hexdigits" using 3(3) by simp_all
  have r: "even (length rest)" "\<forall>c\<in>set rest. c \<in> set hexdigits" using 3(2,3) by simp_all
  from 3(1) [OF r] show ?case
    using byte_of_pair [OF c] hex_of_byte [OF c]
    by (simp add: bytesToHex_def del: of_nat_add of_nat_mult)
qed

lemma hex_roundtrip:
  assumes "even (length h)" "\<forall>c\<in>set h. c \<in> set hexdigits"
  shows "bytesToHex (hexToBytes h) = h" "length (hexToBytes h) = length h div 2"
  using hexToBytes_loop_roundtrip [OF assms] assms(1)
  by (simp_all add: hexToBytes_def Let_def)

lemma decodeKey_encodeKey:
  assumes "hrp \<noteq> []" "even (length h)" "\<forall>c\<in>set h. c \<in> set hexdigits"
  shows "\<exists>s. encodeKey hrp h = Some (Inr s) \<and> decodeKey s = Some (Inr h)"
proof -
  define bs where "bs = hexToBytes h"
  from convertBits_8_5_8 [OF uint_byte_range, of bs] obtain w where
    w: "convertBits (map uint bs) 8 5 True = Some (Inr w)"
       "\<forall>d\<in>set w. 0 \<le> d \<and> d < 32"
       "convertBits w 5 8 False = Some (Inr (map uint bs))"
    by blast
  have e: "encodeKey hrp h = Some (Inr (encode hrp w))"
    using w(1) by (simp add: encodeKey_def bs_def)
  have d: "decode (encode hrp w) = Inr (hrp, w)"
    using assms(1) w(2) by (rule decode_encode)
  have "map word_of_int (map uint bs) = bs"
    by (simp add: map_idI)
  then have "decodeKey (encode hrp w) = Some (Inr (bytesToHex bs))"
    using d w(3) by (simp add: decodeKey_def)
  then have "decodeKey (encode hrp w) = Some (Inr h)"
    using hex_roundtrip(1) [OF assms(2,3)] by (simp add: bs_def)
  with e show ?thesis by blast
qed

text \<open>
  C1. For every valid 32-byte key given as a string \<open>h\<close> of 64 lowercase hexadecimal
  characters, decoding the bech32 encoding of \<open>h\<close> returns \<open>h\<close> exactly, for the
  public-key functions and for the private-key functions; no call raises.
\<close>

theorem bech32_key_roundtrip:
  assumes "length h = 64" "\<forall>c\<in>set h. c \<in> set ''0123456789abcdef''"
  shows "(\<exists>s. encodePubkey h = Some (Inr s) \<and> decodePubkey s = Some (Inr h)) \<and>
         (\<exists>s. encodePrivkey h = Some (Inr s) \<and> decodePrivkey s = Some (Inr h))"
proof -
  have e: "even (length h)" using assms(1) by simp
  have c: "\<forall>c\<in>set h. c \<in> set hexdigits" using assms(2) by (simp add: hexdigits_def)
  show ?thesis
    unfolding encodePubkey_def encodePrivkey_def decodePubkey_def decodePrivkey_def
    using decodeKey_encodeKey [OF _ e c, of "''npub''"] decodeKey_encodeKey [OF _ e c, of "''nsec''"]
    by simp
qed

theorem bech32_key_roundtrip_witness:
  "(length ''3bf0c63fcb93463407af97a5e5ee64fa883d107ef9e558472c4eb9aaaefa459d'' = 64 \<and>
    list_all (\<lambda>c. c \<in> set ''0123456789abcdef'')
      ''3bf0c63fcb93463407af97a5e5ee64fa883d107ef9e558472c4eb9aaaefa459d'') \<and>
   (\<exists>s. encodePubkey ''3bf0c63fcb93463407af97a5e5ee64fa883d107ef9e558472c4eb9aaaefa459d''
          = Some (Inr s) \<and>
        decodePubkey s
          = Some (Inr ''3bf0c63fcb93463407af97a5e5ee64fa883d107ef9e558472c4eb9aaaefa459d'')) \<and>
   (\<exists>s. encodePrivkey ''3bf0c63fcb93463407af97a5e5ee64fa883d107ef9e558472c4eb9aaaefa459d''
          = Some (Inr s) \<and>
        decodePrivkey s
          = Some (Inr ''3bf0c63fcb93463407af97a5e5ee64fa883d107ef9e558472c4eb9aaaefa459d''))"
proof -
  have h: "length ''3bf0c63fcb93463407af97a5e5ee64fa883d107ef9e558472c4eb9aaaefa459d'' = 64"
    "\<forall>c\<in>set ''3bf0c63fcb93463407af97a5e5ee64fa883d107ef9e558472c4eb9aaaefa459d''.
        c \<in> set ''0123456789abcdef''"
    by simp_all
  show ?thesis using h bech32_key_roundtrip [OF h] unfolding list_all_iff by blast
qed


section \<open>Generated keys are in range\<close>

lemma hex_val_digit: "d < 16 \<Longrightarrow> hex_val (hexdigits ! d) = d \<and> hexdigits ! d \<in> set hexdigits"
proof -
  assume "d < 16"
  then have "d \<in> set [0..<16]" by simp
  moreover have "list_all (\<lambda>d. hex_val (hexdigits ! d) = d) [0..<16]"
    by code_simp
  moreover have "length hexdigits = 16" by (simp add: hexdigits_def)
  ultimately show ?thesis using \<open>d < 16\<close> unfolding list_all_iff by simp
qed

lemma hex_value_snoc: "hex_value (xs @ [c]) = 16 * hex_value xs + hex_val c"
  by (simp add: hex_value_def)

lemma hex_value_zeros: "hex_value (replicate m CHR ''0'' @ xs) = hex_value xs"
proof -
  have "foldl (\<lambda>v c. 16 * v + hex_val c) 0 (replicate m CHR ''0'') = 0"
    by (induction m) (simp_all add: hex_val_def)
  then show ?thesis by (simp add: hex_value_def)
qed

lemma hex_of_nat_props:
  "set (hex_of_nat n) \<subseteq> set hexdigits \<and> hex_value (hex_of_nat n) = n \<and> hex_of_nat n \<noteq> []"
proof (induction n rule: hex_of_nat.induct)
  case (1 n)
  show ?case
  proof (cases "n < 16")
    case True
    then show ?thesis
      using hex_val_digit [of n] by (subst (1 2 3) hex_of_nat.simps) (simp add: hex_value_def)
  next
    case False
    have m: "n mod 16 < 16" by simp
    from 1 [OF False] hex_val_digit [OF m] False show ?thesis
      by (subst (1 2 3) hex_of_nat.simps) (simp add: hex_value_snoc)
  qed
qed

lemma hex_of_nat_length: "0 < k \<Longrightarrow> n < 16 ^ k \<Longrightarrow> length (hex_of_nat n) \<le> k"
proof (induction n arbitrary: k rule: hex_of_nat.induct)
  case (1 n)
  show ?case
  proof (cases "n < 16")
    case True
    then show ?thesis using 1(2) by (subst hex_of_nat.simps) simp
  next
    case False
    then have k1: "1 < k" using 1(2,3) by (cases "k = 1") auto
    define j where "j = k - 1"
    have j: "0 < j" "k = Suc j" using k1 by (simp_all add: j_def)
    have "n div 16 < 16 ^ j" using 1(3) j(2) by (simp add: less_mult_imp_div_less mult.commute)
    from 1(1) [OF False j(1) this] show ?thesis
      using False j(2) by (subst hex_of_nat.simps) simp
  qed
qed

lemma byte_hex:
  fixes b :: byte
  shows "padStart (toString16 (uint b)) 2 CHR ''0''
     = [hexdigits ! (unat b div 16), hexdigits ! (unat b mod 16)]"
proof -
  define n where "n = unat b"
  have "unat b < 2 ^ LENGTH(8)" by (rule unsigned_less)
  then have n: "n < 256" by (simp add: n_def)
  have "uint b = int n" by (simp add: n_def)
  then have t: "toString16 (uint b) = hex_of_nat n"
    by (simp only: toString16_int)
  show ?thesis
  proof (cases "n < 16")
    case True
    then have "hex_of_nat n = [hexdigits ! n]" by (subst hex_of_nat.simps) simp
    moreover have "n div 16 = 0" "n mod 16 = n" using True by simp_all
    moreover have "hexdigits ! 0 = CHR ''0''" by (simp add: hexdigits_def)
    ultimately show ?thesis
      unfolding t n_def [symmetric] by (simp add: padStart_def)
  next
    case False
    have "n div 16 < 16" using n by simp
    then have "hex_of_nat (n div 16) = [hexdigits ! (n div 16)]"
      by (subst hex_of_nat.simps) simp
    then have "hex_of_nat n = [hexdigits ! (n div 16), hexdigits ! (n mod 16)]"
      using False by (subst hex_of_nat.simps) simp
    then show ?thesis unfolding t n_def [symmetric] by (simp add: padStart_def)
  qed
qed

lemma bytesToHex_snoc:
  "bytesToHex (bs @ [b]) = bytesToHex bs @ [hexdigits ! (unat b div 16), hexdigits ! (unat b mod 16)]"
  by (simp add: bytesToHex_def byte_hex)

lemma bytesToHex_props:
  "set (bytesToHex bs) \<subseteq> set hexdigits \<and> length (bytesToHex bs) = 2 * length bs \<and>
   int (hex_value (bytesToHex bs)) = be_val 8 0 (map uint bs)"
proof (induction bs rule: rev_induct)
  case Nil
  then show ?case by (simp add: bytesToHex_def hex_value_def be_val_def)
next
  case (snoc b bs)
  define n where "n = unat b"
  have "unat b < 2 ^ LENGTH(8)" by (rule unsigned_less)
  then have n: "n < 256" by (simp add: n_def)
  then have d: "n div 16 < 16" "n mod 16 < 16" by simp_all
  note h1 = hex_val_digit [OF d(1)] and h2 = hex_val_digit [OF d(2)]
  have "hex_value (bytesToHex (bs @ [b])) = 256 * hex_value (bytesToHex bs) + n"
    unfolding bytesToHex_snoc n_def [symmetric]
    using h1 h2 hex_value_snoc [of "bytesToHex bs @ [hexdigits ! (n div 16)]"]
      hex_value_snoc [of "bytesToHex bs"] by simp
  then have "int (hex_value (bytesToHex (bs @ [b]))) = be_val 8 0 (map uint (bs @ [b]))"
    using snoc by (simp add: be_val_snoc n_def)
  then show ?case using snoc h1 h2 by (simp add: bytesToHex_snoc n_def)
qed

lemma dropWhile_rev_last: "s \<noteq> [] \<Longrightarrow> \<not> Q (last s) \<Longrightarrow> dropWhile Q (rev s) = rev s"
  by (cases s rule: rev_cases) simp_all

lemma BigInt_0x_hex:
  assumes "s \<noteq> []" "set s \<subseteq> set hexdigits"
  shows "BigInt_0x s = Inr (int (hex_value s))"
proof -
  have "last s \<in> set hexdigits" using assms by auto
  then have "\<not> is_ws (last s)" by (rule hexdigit_facts(2))
  then have z: "rev (dropWhile is_ws (rev s)) = s"
    using assms(1) by (simp add: dropWhile_rev_last)
  have "list_all is_hex s"
    using assms(2) hexdigit_facts(1) unfolding list_all_iff by blast
  then show ?thesis using assms(1) by (simp add: BigInt_0x_def z)
qed

lemma bytesToBigInt_val:
  assumes "bs \<noteq> []"
  shows "bytesToBigInt bs = Inr (be_val 8 0 (map uint bs))"
proof -
  note p = bytesToHex_props [of bs]
  have "bytesToHex bs \<noteq> []" using p assms by auto
  then show ?thesis using p BigInt_0x_hex [of "bytesToHex bs"] by (simp add: bytesToBigInt_def)
qed

lemma key_hex:
  assumes "0 \<le> v" "v < 2 ^ 256"
  shows "length (bytesToHex (bigIntToBytes v 32)) = 64"
    "set (bytesToHex (bigIntToBytes v 32)) \<subseteq> set hexdigits"
    "int (hex_value (bytesToHex (bigIntToBytes v 32))) = v"
proof -
  define hx where "hx = hex_of_nat (nat v)"
  define s where "s = padStart (toString16 v) 64 CHR ''0''"
  have "nat v < 2 ^ 256" using assms by (simp add: nat_less_iff)
  also have "(2::nat) ^ 256 = 16 ^ 64" by simp
  finally have "length hx \<le> 64" unfolding hx_def by (intro hex_of_nat_length) simp_all
  moreover have s: "s = replicate (64 - length hx) CHR ''0'' @ hx"
    using assms(1) by (simp add: s_def padStart_def toString16_def hx_def)
  ultimately have l: "length s = 64" by simp
  have "CHR ''0'' \<in> set hexdigits" by (simp add: hexdigits_def)
  then have c: "set s \<subseteq> set hexdigits"
    using hex_of_nat_props [of "nat v"] unfolding s hx_def by auto
  have v: "int (hex_value s) = v"
    using hex_of_nat_props [of "nat v"] assms(1) unfolding s hx_def by (simp add: hex_value_zeros)
  have "bytesToHex (hexToBytes s) = s"
    using l c by (intro hex_roundtrip) auto
  then have e: "bytesToHex (bigIntToBytes v 32) = s"
    by (simp add: bigIntToBytes_def s_def)
  show "length (bytesToHex (bigIntToBytes v 32)) = 64"
    "set (bytesToHex (bigIntToBytes v 32)) \<subseteq> set hexdigits"
    "int (hex_value (bytesToHex (bigIntToBytes v 32))) = v"
    unfolding e using l c v by simp_all
qed

lemma N_bound: "0 < N" "N < 2 ^ 256"
  by (simp_all add: N_def)

lemma draw_val:
  "bytesToBigInt (stake 32 rnd) = Inr (be_val 8 0 (map uint (stake 32 rnd))) \<and>
   0 \<le> be_val 8 0 (map uint (stake 32 rnd))"
proof -
  have "stake 32 rnd \<noteq> []" by (metis length_stake list.size(3) zero_neq_numeral)
  then have "bytesToBigInt (stake 32 rnd) = Inr (be_val 8 0 (map uint (stake 32 rnd)))"
    by (rule bytesToBigInt_val)
  moreover have "\<forall>x\<in>set (map uint (stake 32 rnd)). 0 \<le> x \<and> x < 2 ^ 8"
  proof
    fix x assume "x \<in> set (map uint (stake 32 rnd))"
    then obtain b :: byte where "x = uint b" by auto
    then show "0 \<le> x \<and> x < 2 ^ 8" using uint_lt2p [of b] by simp
  qed
  ultimately show ?thesis using be_val_bound by blast
qed

lemma draw_eq: "bytesToBigInt (stake 32 rnd) = Inr (draw rnd)" "0 \<le> draw rnd"
  using draw_val [of rnd] by (simp_all only: draw_def)

lemma loop_partial:
  assumes "generatePrivateKey_loop key rnd = Some y"
  shows "0 \<le> key \<longrightarrow> (\<exists>v. y = Inr v \<and> 1 \<le> v \<and> v < N)"
proof (rule generatePrivateKey_loop.raw_induct
    [where P = "\<lambda>key rnd y. 0 \<le> key \<longrightarrow> (\<exists>v. y = Inr v \<and> 1 \<le> v \<and> v < N)", OF _ assms])
  fix gl :: "int \<Rightarrow> byte stream \<Rightarrow> (error + int) option" and key rnd y
  assume IH: "\<And>key rnd y. gl key rnd = Some y \<Longrightarrow>
      0 \<le> key \<longrightarrow> (\<exists>v. y = Inr v \<and> 1 \<le> v \<and> v < N)"
    and eq: "(if N \<le> key \<or> key = 0
        then case bytesToBigInt (stake 32 rnd) of Inl e \<Rightarrow> Some (Inl e)
             | Inr key1 \<Rightarrow> gl key1 (sdrop 32 rnd)
        else Some (Inr key)) = Some y"
  show "0 \<le> key \<longrightarrow> (\<exists>v. y = Inr v \<and> 1 \<le> v \<and> v < N)"
  proof
    assume k: "0 \<le> key"
    show "\<exists>v. y = Inr v \<and> 1 \<le> v \<and> v < N"
    proof (cases "N \<le> key \<or> key = 0")
      case True
      from eq have "gl (draw rnd) (sdrop 32 rnd) = Some y"
        unfolding draw_eq if_P [OF True] sum.case .
      from IH [OF this] draw_eq(2) [of rnd] show ?thesis by blast
    next
      case False
      from eq have "Some (Inr key) = Some y" unfolding if_not_P [OF False] .
      then have "y = Inr key" by simp
      moreover have "1 \<le> key" "key < N" using False k by linarith+
      ultimately show ?thesis by blast
    qed
  qed
qed

lemma loop_unfold_redraw:
  "N \<le> key \<or> key = 0 \<Longrightarrow>
     generatePrivateKey_loop key rnd = generatePrivateKey_loop (draw rnd) (sdrop 32 rnd)"
  by (subst generatePrivateKey_loop.simps) (simp only: if_P draw_eq sum.case)

lemma loop_unfold_return:
  "\<not> (N \<le> key \<or> key = 0) \<Longrightarrow> generatePrivateKey_loop key rnd = Some (Inr key)"
  by (subst generatePrivateKey_loop.simps) (simp only: if_not_P if_False)

lemma loop_total:
  "1 \<le> draw (sdrop (32 * d) rnd) \<Longrightarrow> draw (sdrop (32 * d) rnd) < N \<Longrightarrow>
   \<exists>v. generatePrivateKey_loop key rnd = Some (Inr v)"
proof (induction d arbitrary: key rnd)
  case 0
  have "sdrop (32 * 0) rnd = rnd" by (simp only: mult_0_right sdrop.simps)
  with 0 have v: "1 \<le> draw rnd" "draw rnd < N" by (simp_all only:)
  then have "\<not> (N \<le> draw rnd \<or> draw rnd = 0)" by linarith
  then have r: "generatePrivateKey_loop (draw rnd) (sdrop 32 rnd) = Some (Inr (draw rnd))"
    by (rule loop_unfold_return)
  show ?case
  proof (cases "N \<le> key \<or> key = 0")
    case True
    from loop_unfold_redraw [OF True, of rnd] r show ?thesis by (simp only:) blast
  next
    case False
    from loop_unfold_return [OF False, of rnd] show ?thesis by blast
  qed
next
  case (Suc d)
  have "sdrop (32 * Suc d) rnd = sdrop (32 * d) (sdrop 32 rnd)"
    by (simp only: sdrop_add mult_Suc_right)
  with Suc.prems have "1 \<le> draw (sdrop (32 * d) (sdrop 32 rnd))"
    "draw (sdrop (32 * d) (sdrop 32 rnd)) < N"
    by (simp_all only:)
  from Suc.IH [OF this] obtain v where
    r: "generatePrivateKey_loop (draw rnd) (sdrop 32 rnd) = Some (Inr v)" by blast
  show ?case
  proof (cases "N \<le> key \<or> key = 0")
    case True
    from loop_unfold_redraw [OF True, of rnd] r show ?thesis by (simp only:) blast
  next
    case False
    from loop_unfold_return [OF False, of rnd] show ?thesis by blast
  qed
qed

lemma be_val_zeros: "be_val w 0 (replicate n 0) = 0"
  by (induction n) (simp_all add: be_val_def)


text \<open>
  C4. Every string returned by \<open>generatePrivateKey\<close> has exactly 64 hexadecimal
  characters and denotes an integer in \<open>[1, N - 1]\<close>, for every stream of random bytes.
  No error is raised, and a string is returned as soon as some draw of 32 bytes denotes
  a value in \<open>[1, N - 1]\<close> (the loop redraws while the value is \<open>0\<close> or \<open>\<ge> N\<close>).
\<close>

theorem generatePrivateKey_in_range:
  "(\<forall>s. generatePrivateKey rnd = Some (Inr s) \<longrightarrow>
      length s = 64 \<and> (\<forall>c\<in>set s. c \<in> set ''0123456789abcdef'') \<and>
      1 \<le> int (hex_value s) \<and> int (hex_value s) \<le> N - 1) \<and>
   (\<forall>e. generatePrivateKey rnd \<noteq> Some (Inl e)) \<and>
   ((\<exists>k v. bytesToBigInt (stake 32 (sdrop (32 * k) rnd)) = Inr v \<and> 1 \<le> v \<and> v < N) \<longrightarrow>
      (\<exists>s. generatePrivateKey rnd = Some (Inr s)))"
proof (intro conjI allI impI)
  define k0 where "k0 = draw rnd"
  define r1 where "r1 = sdrop 32 rnd"
  have k0: "0 \<le> k0" using draw_eq(2) [of rnd] by (simp only: k0_def)
  have gp: "generatePrivateKey rnd =
      (case generatePrivateKey_loop k0 r1 of None \<Rightarrow> None
       | Some (Inl e) \<Rightarrow> Some (Inl e)
       | Some (Inr key1) \<Rightarrow> Some (Inr (bytesToHex (bigIntToBytes key1 32))))"
    unfolding generatePrivateKey_def draw_eq sum.case k0_def r1_def ..
  {
    fix s assume s: "generatePrivateKey rnd = Some (Inr s)"
    then obtain y where y: "generatePrivateKey_loop k0 r1 = Some y"
      unfolding gp by (auto split: option.splits)
    from loop_partial [OF y] k0 obtain v where v: "y = Inr v" "1 \<le> v" "v < N" by blast
    have se: "s = bytesToHex (bigIntToBytes v 32)" using s y v(1) unfolding gp by simp
    have v2: "0 \<le> v" "v < 2 ^ 256" using v N_bound by simp_all
    note kh = key_hex [OF v2]
    show "length s = 64" using kh(1) se by simp
    show "\<forall>c\<in>set s. c \<in> set ''0123456789abcdef''"
      using kh(2) [unfolded hexdigits_def] unfolding se by blast
    show "1 \<le> int (hex_value s)" using kh(3) se v(2) by simp
    show "int (hex_value s) \<le> N - 1" using kh(3) se v(3) by simp
  }
  {
    fix e
    show "generatePrivateKey rnd \<noteq> Some (Inl e)"
    proof
      assume "generatePrivateKey rnd = Some (Inl e)"
      then have y: "generatePrivateKey_loop k0 r1 = Some (Inl e)"
        unfolding gp by (auto split: option.splits sum.splits)
      from loop_partial [OF y] k0 show False by simp
    qed
  }
  {
    assume "\<exists>k v. bytesToBigInt (stake 32 (sdrop (32 * k) rnd)) = Inr v \<and> 1 \<le> v \<and> v < N"
    then obtain k v where kv: "bytesToBigInt (stake 32 (sdrop (32 * k) rnd)) = Inr v"
      "1 \<le> v" "v < N" by blast
    from kv(1) have "Inr (draw (sdrop (32 * k) rnd)) = (Inr v :: error + int)"
      unfolding draw_eq .
    then have "draw (sdrop (32 * k) rnd) = v" by simp
    then have "1 \<le> draw (sdrop (32 * k) rnd)" "draw (sdrop (32 * k) rnd) < N"
      using kv(2,3) by (simp_all only:)
    then have "\<exists>w. generatePrivateKey_loop 0 rnd = Some (Inr w)"
      by (rule loop_total)
    moreover have "generatePrivateKey_loop 0 rnd = generatePrivateKey_loop k0 r1"
      unfolding k0_def r1_def by (rule loop_unfold_redraw) simp
    ultimately obtain w where "generatePrivateKey_loop k0 r1 = Some (Inr w)" by auto
    then show "\<exists>s. generatePrivateKey rnd = Some (Inr s)"
      unfolding gp by simp
  }
qed

theorem generatePrivateKey_in_range_witness:
  "(\<exists>k v. bytesToBigInt (stake 32 (sdrop (32 * k) ((replicate 31 0 @ [1 :: byte]) @- sconst 0)))
        = Inr v \<and> 1 \<le> v \<and> v < N) \<and>
   (\<exists>s. generatePrivateKey ((replicate 31 0 @ [1 :: byte]) @- sconst 0) = Some (Inr s) \<and>
      length s = 64 \<and> (\<forall>c\<in>set s. c \<in> set ''0123456789abcdef'') \<and>
      1 \<le> int (hex_value s) \<and> int (hex_value s) \<le> N - 1)"
proof -
  define w :: "byte list" where "w = replicate 31 0 @ [1]"
  define rnd where "rnd = w @- sconst 0"
  have lw: "length w = 32" by (simp add: w_def)
  have "stake 32 (sdrop (32 * 0) rnd) = w"
    unfolding rnd_def by (simp add: stake_shift lw)
  moreover have "bytesToBigInt w = Inr (be_val 8 0 (map uint w))"
    by (rule bytesToBigInt_val) (simp add: w_def)
  moreover have "be_val 8 0 (map uint w) = 1"
    by (simp add: w_def be_val_snoc be_val_zeros)
  ultimately have "bytesToBigInt (stake 32 (sdrop (32 * 0) rnd)) = Inr 1" by simp
  moreover have "(1::int) < N" by (simp add: N_def)
  ultimately have h: "\<exists>k v. bytesToBigInt (stake 32 (sdrop (32 * k) rnd)) = Inr v \<and>
      1 \<le> v \<and> v < N"
    by (intro exI [of _ 0] exI [of _ 1]) simp
  note t = generatePrivateKey_in_range [of rnd]
  from t h obtain s where s: "generatePrivateKey rnd = Some (Inr s)" by blast
  with t have "length s = 64 \<and> (\<forall>c\<in>set s. c \<in> set ''0123456789abcdef'') \<and>
      1 \<le> int (hex_value s) \<and> int (hex_value s) \<le> N - 1" by blast
  with s h show ?thesis unfolding rnd_def w_def by blast
qed


section \<open>Malformed input\<close>








end
